theory Spec2Isabelle
  imports Complex_Main "HOL-Library.Word" "HOL-Library.Multiset"
begin

unbundle bit_operations_syntax

chapter \<open>StudioBlood: block transformers and their random generator\<close>

text \<open>
  The plugins are compiled for a 64-bit target: \<^verbatim>\<open>unsigned long\<close> (and with it
  \<^verbatim>\<open>UINT\<close> of xorgens.h) is a 64-bit word whose arithmetic wraps modulo \<open>2 ^ 64\<close>.
  Samples (\<^verbatim>\<open>LADSPA_Data\<close>) are only ever copied by the functions modelled
  here, never computed with, so the sample type is a type variable. A
  \<^verbatim>\<open>float\<close> or \<^verbatim>\<open>double\<close> that is computed with (sample rates, the millisecond offset)
  is the real number it denotes. The single-precision quotient and product of
  \<^verbatim>\<open>GetOffsetInSamples\<close> are each rounded to the nearest \<^verbatim>\<open>float\<close>, as IEEE 754
  arithmetic evaluated in the type of its operands does.
\<close>

type_synonym ulong = "64 word"

section \<open>Undefined behaviour as values\<close>

text \<open>
  What C leaves undefined is a result of the model: an access outside an array, a
  remainder by zero, and the conversion of a floating-point value that the integer
  type cannot hold.
\<close>

datatype fault = OutOfBounds | DivisionByZero | ConversionOverflow

text \<open>
  A buffer is the list of its elements; an index is inside it when it is below the
  length. \<^verbatim>\<open>malloc\<close> returns no object of more than \<^verbatim>\<open>PTRDIFF_MAX\<close> bytes and a sample
  takes four, so a list of \<open>2 ^ 61\<close> or more elements is no buffer of the program and
  every access to it is a fault.
\<close>

definition in_range :: "'a list \<Rightarrow> nat \<Rightarrow> bool" where
  "in_range buf n \<longleftrightarrow> n < length buf \<and> length buf < 2 ^ 61"

text \<open>A conversion from floating point to an integer type drops the fraction.\<close>

definition trunc :: "real \<Rightarrow> int" where
  "trunc r = (if 0 \<le> r then \<lfloor>r\<rfloor> else \<lceil>r\<rceil>)"

definition real_to_int :: "real \<Rightarrow> fault + int" where
  "real_to_int r =
     (if - (2 ^ 31) \<le> trunc r \<and> trunc r < 2 ^ 31 then Inr (trunc r)
      else Inl ConversionOverflow)"

definition real_to_ulong :: "real \<Rightarrow> fault + ulong" where
  "real_to_ulong r =
     (if 0 \<le> trunc r \<and> trunc r < 2 ^ 64 then Inr (word_of_int (trunc r))
      else Inl ConversionOverflow)"

text \<open>
  The vocabulary of the statements below: \<open>blit src s dst d n\<close> is \<open>dst\<close> with the
  \<open>n\<close> elements of \<open>src\<close> from position \<open>s\<close> written over positions \<open>d\<close> to
  \<open>d + n - 1\<close>.
\<close>

definition blit :: "'a list \<Rightarrow> nat \<Rightarrow> 'a list \<Rightarrow> nat \<Rightarrow> nat \<Rightarrow> 'a list" where
  "blit src s dst d n = take d dst @ take n (drop s src) @ drop (d + n) dst"

text \<open>
  \<open>tiles a plan b\<close>: the segments of \<open>plan\<close> (pairs of a first and a last index), in
  their order, are non-empty, each starts where the one before ended, and together
  they are exactly the indices from \<open>a\<close> to \<open>b - 1\<close>. \<open>reversed_runs inp plan\<close> is
  the input with each of these segments written backwards, one after the other.
\<close>

fun tiles :: "nat \<Rightarrow> (nat \<times> nat) list \<Rightarrow> nat \<Rightarrow> bool" where
  "tiles a [] b \<longleftrightarrow> a = b"
| "tiles a ((s, e) # plan) b \<longleftrightarrow> s = a \<and> s \<le> e \<and> tiles (Suc e) plan b"

definition reversed_runs :: "'a list \<Rightarrow> (nat \<times> nat) list \<Rightarrow> 'a list" where
  "reversed_runs inp plan = concat (map (\<lambda>(s, e). rev (take (Suc e - s) (drop s inp))) plan)"

text \<open>
  The two segmenting loops below carry one variable that the source does not have:
  \<open>plan\<close>, the list of the segments chosen so far, each as the pair of its first and
  last index as the loop computed them. It is only appended to and never read.
\<close>

definition segment_indices :: "(ulong \<times> ulong) list \<Rightarrow> (nat \<times> nat) list" where
  "segment_indices plan = map (\<lambda>(s, e). (unat s, unat e)) plan"

section \<open>xorgens.c: the generator \<^verbatim>\<open>xor4096i\<close>\<close>

text \<open>
  The static variables of \<^verbatim>\<open>xor4096i\<close>: the Weyl accumulator \<^verbatim>\<open>w\<close>, its increment
  \<^verbatim>\<open>weyl\<close>, the circular array \<^verbatim>\<open>x[r]\<close> and the cursor \<^verbatim>\<open>i\<close> (an \<^verbatim>\<open>int\<close>, negative
  before the first call). The static \<^verbatim>\<open>zero\<close> is never assigned and is the constant 0.
  For a 64-bit \<^verbatim>\<open>UINT\<close> the macros are wlen = 64, r = 64, s = 53, a = 33, b = 26,
  c = 27, d = 29, ws = 27.
\<close>

record xor_state =
  xg_w :: ulong
  xg_weyl :: ulong
  xg_x :: "ulong list"
  xg_i :: int

definition xor_static_init :: xor_state where
  "xor_static_init = \<lparr>xg_w = 0, xg_weyl = 0, xg_x = replicate 64 0, xg_i = - 1\<rparr>"

text \<open>\<^verbatim>\<open>v ^= v<<10; v ^= v>>15; v ^= v<<4; v ^= v>>13;\<close>\<close>

definition seed_round :: "ulong \<Rightarrow> ulong" where
  "seed_round v =
     (let v1 = v XOR push_bit 10 v;
          v2 = v1 XOR drop_bit 15 v1;
          v3 = v2 XOR push_bit 4 v2
      in v3 XOR drop_bit 13 v3)"

text \<open>\<^verbatim>\<open>t ^= t<<a; t ^= t>>b;\<close> and \<^verbatim>\<open>v ^= v<<c; v ^= v>>d;\<close>\<close>

definition mix_t :: "ulong \<Rightarrow> ulong" where
  "mix_t t = (let t1 = t XOR push_bit 33 t in t1 XOR drop_bit 26 t1)"

definition mix_v :: "ulong \<Rightarrow> ulong" where
  "mix_v v = (let v1 = v XOR push_bit 27 v in v1 XOR drop_bit 29 v1)"

text \<open>The second initialisation loop, \<^verbatim>\<open>for (w = v, k = 0; k < r; k++)\<close>, as a
  recursion on the number of rounds still to run; \<open>k\<close> is the array index.\<close>

fun fill_array :: "nat \<Rightarrow> nat \<Rightarrow> ulong \<Rightarrow> ulong \<Rightarrow> ulong \<Rightarrow> ulong list \<Rightarrow> ulong \<times> ulong list" where
  "fill_array 0 k v w weyl xs = (w, xs)"
| "fill_array (Suc n) k v w weyl xs =
     (let v' = seed_round v; w' = w + weyl
      in fill_array n (Suc k) v' w' weyl (xs[k := v' + w']))"

text \<open>The third loop, \<^verbatim>\<open>for (i = r-1, k = 4*r; k > 0; k--)\<close>: the generator step
  without the Weyl update, its results discarded.\<close>

fun discard_rounds :: "nat \<Rightarrow> int \<Rightarrow> ulong list \<Rightarrow> int \<times> ulong list" where
  "discard_rounds 0 i xs = (i, xs)"
| "discard_rounds (Suc n) i xs =
     (let i' = (i + 1) AND 63;
          t = mix_t (xs ! nat i');
          v = mix_v (xs ! nat ((i' + 11) AND 63))
      in discard_rounds n i' (xs[nat i' := t XOR v]))"

definition initialise :: "ulong \<Rightarrow> xor_state \<Rightarrow> xor_state" where
  "initialise seed st =
     (let weyl = push_bit 16 (push_bit 16 (0x61c88646 :: ulong)) + 0x80b583eb;
          v0 = (if seed \<noteq> 0 then seed else NOT seed);
          v = (seed_round ^^ 64) v0;
          (w, xs) = fill_array 64 0 v v weyl (xg_x st);
          (i, xs') = discard_rounds 256 63 xs
      in \<lparr>xg_w = w, xg_weyl = weyl, xg_x = xs', xg_i = i\<rparr>)"

text \<open>The generator proper (the five statements after the initialisation block).\<close>

definition generator :: "xor_state \<Rightarrow> ulong \<times> xor_state" where
  "generator st =
     (let i = (xg_i st + 1) AND 63;
          t = mix_t (xg_x st ! nat i);
          v = mix_v (xg_x st ! nat ((i + 11) AND 63)) XOR t;
          w = xg_w st + xg_weyl st
      in (v + (w XOR drop_bit 27 w),
          st\<lparr>xg_i := i, xg_x := (xg_x st)[nat i := v], xg_w := w\<rparr>))"

definition xor4096i :: "ulong \<Rightarrow> xor_state \<Rightarrow> ulong \<times> xor_state" where
  "xor4096i seed st =
     (if xg_i st < 0 \<or> seed \<noteq> 0 then generator (initialise seed st) else generator st)"

section \<open>\<^verbatim>\<open>GetRandomNaturalNumber\<close> (sb_esreveR.c and sb_kite.c)\<close>

text \<open>
  Both files define the same function: it reads the clock, calls
  \<^verbatim>\<open>xor4096i(tv_usec * tv_sec)\<close> and reduces the result to the range. The value that
  \<^verbatim>\<open>xor4096i\<close> returns depends on the clock, so it is an input of the model: the
  argument \<open>rand_num\<close>. In a run, \<open>rnd k\<close> is the value returned by the \<open>k\<close>-th call
  of \<^verbatim>\<open>xor4096i\<close>. The operator \<^verbatim>\<open>%\<close> with a zero divisor is a fault.
\<close>

definition GetRandomNaturalNumber :: "ulong \<Rightarrow> ulong \<Rightarrow> ulong \<Rightarrow> fault + ulong" where
  "GetRandomNaturalNumber rand_num lower_bound upper_bound =
     (if upper_bound - lower_bound + 1 = 0 then Inl DivisionByZero
      else Inr (lower_bound + rand_num mod (upper_bound - lower_bound + 1)))"

section \<open>Single-precision arithmetic\<close>

text \<open>
  A \<^verbatim>\<open>float\<close> is an IEEE 754 binary32 number: a significand of 24 bits and an
  exponent between \<open>- 126\<close> and \<open>127\<close>. The result of an arithmetic operation on
  \<^verbatim>\<open>float\<close> operands is the exact result rounded to the nearest such number, a tie
  going to the one with an even significand.

  \<open>round_half_even r\<close> is the integer nearest to \<open>r\<close>, the even one of the two at a
  tie. \<open>float_exponent x\<close> is the exponent \<open>e\<close> of the binade
  \<open>2 powi e \<le> \<bar>x\<bar> < 2 powi (e + 1)\<close> of \<open>x\<close>, found by counting up from \<open>- 126\<close>, which
  is also the exponent of every smaller (subnormal) number. \<open>round_to_float x\<close>
  rounds \<open>x\<close> to a multiple of the unit in the last place \<open>2 powi (e - 23)\<close> of its
  binade. A magnitude of \<open>2 powi 128\<close> or more stands for an infinity: no conversion
  to an integer type accepts it.
\<close>

definition round_half_even :: "real \<Rightarrow> int" where
  "round_half_even r =
     (let f = \<lfloor>r\<rfloor>; d = r - of_int f
      in if d < 1 / 2 then f else if 1 / 2 < d then f + 1 else if even f then f else f + 1)"

fun float_exp_search :: "nat \<Rightarrow> int \<Rightarrow> real \<Rightarrow> int" where
  "float_exp_search 0 e x = e"
| "float_exp_search (Suc n) e x =
     (if x < 2 powi (e + 1) then e else float_exp_search n (e + 1) x)"

definition float_exponent :: "real \<Rightarrow> int" where
  "float_exponent x = float_exp_search 254 (- 126) \<bar>x\<bar>"

definition round_to_float :: "real \<Rightarrow> real" where
  "round_to_float x =
     (let ulp = 2 powi (float_exponent x - 23)
      in of_int (round_half_even (x / ulp)) * ulp)"

section \<open>sb_adt.c: the fixed-offset delay\<close>

text \<open>
  The macro \<^verbatim>\<open>LIMIT_BETWEEN_5_AND_200\<close> and the conversion of the offset from
  milliseconds to samples: \<^verbatim>\<open>(int) offset\<close> is clamped and converted back to
  \<^verbatim>\<open>float\<close> (exactly: it is an integer between 5 and 200), divided by \<^verbatim>\<open>1000.0f\<close> in
  single precision, multiplied by the sample rate in single precision and converted to
  \<^verbatim>\<open>int\<close>. Each of the two operations rounds its result.
\<close>

definition LIMIT_BETWEEN_5_AND_200 :: "int \<Rightarrow> int" where
  "LIMIT_BETWEEN_5_AND_200 x = (if x < 5 then 5 else if x > 200 then 200 else x)"

definition GetOffsetInSamples :: "real \<Rightarrow> real \<Rightarrow> fault + int" where
  "GetOffsetInSamples sample_rate offset =
     (case real_to_int offset of
        Inl e \<Rightarrow> Inl e
      | Inr ms \<Rightarrow>
          (let offset_seconds =
                 round_to_float (real_of_int (LIMIT_BETWEEN_5_AND_200 ms) / 1000);
               offset_samples = real_to_int (round_to_float (sample_rate * offset_seconds))
           in offset_samples))"

text \<open>
  The instance: the run-off (carry) buffer, the value at the control port
  \<^verbatim>\<open>*offset\<close>, the sample rate and the four audio ports. The four port buffers and
  the run-off buffer are distinct arrays. The three plugin structs share field names,
  so the fields carry a prefix here.
\<close>

record 'a Adt =
  block_run_off :: "'a list"
  adt_offset :: real
  adt_sample_rate :: real
  adt_Input_Left :: "'a list"
  adt_Input_Right :: "'a list"
  adt_Output_Left :: "'a list"
  adt_Output_Right :: "'a list"

text \<open>
  \<^verbatim>\<open>activate_Adt\<close> zeroes with \<^verbatim>\<open>memset\<close> as many cells of the run-off buffer as the
  maximum offset of 200 ms takes.
\<close>

definition activate_Adt :: "('a::zero) Adt \<Rightarrow> fault + 'a Adt" where
  "activate_Adt adt =
     (case GetOffsetInSamples (adt_sample_rate adt) 200 of
        Inl e \<Rightarrow> Inl e
      | Inr sample_offset \<Rightarrow>
          (if 0 \<le> sample_offset \<and> nat sample_offset \<le> length (block_run_off adt)
           then Inr (adt\<lparr>block_run_off :=
                   replicate (nat sample_offset) 0 @ drop (nat sample_offset) (block_run_off adt)\<rparr>)
           else Inl OutOfBounds))"

text \<open>
  The four loops of \<^verbatim>\<open>run_Adt\<close>, in the order of the source. The first copies the
  left channel:
  \<^verbatim>\<open>for (in_index = 0; in_index < total_samples; ++in_index)
    { output[out_index] = input[in_index]; ++out_index; }\<close>
\<close>

function adt_copy_left :: "'a list \<Rightarrow> 'a list \<Rightarrow> ulong \<Rightarrow> ulong \<Rightarrow> ulong \<Rightarrow> fault + 'a list" where
  "adt_copy_left inbuf outbuf total_samples in_index out_index =
     (if in_index < total_samples then
        (if in_range inbuf (unat in_index) \<and> in_range outbuf (unat out_index) then
           adt_copy_left inbuf (outbuf[unat out_index := inbuf ! unat in_index])
             total_samples (in_index + 1) (out_index + 1)
         else Inl OutOfBounds)
      else Inr outbuf)"
  by pat_completeness auto
termination
proof (relation "measure (\<lambda>(inbuf, outbuf, total_samples, in_index, out_index).
                    unat total_samples - unat in_index)", goal_cases)
  case 1
  show ?case by simp
next
  case (2 inbuf outbuf total_samples in_index out_index)
  then have lt: "unat in_index < unat total_samples"
    by (simp add: word_less_nat_alt)
  moreover have "unat total_samples < 2 ^ 64"
    using unsigned_less [of total_samples] by simp
  ultimately have "unat (in_index + 1) = Suc (unat in_index)"
    by (simp add: unat_word_ariths)
  then show ?case using lt by simp
qed

text \<open>
  The second writes the run-off buffer to the start of the right output:
  \<^verbatim>\<open>for (run_off_index = 0; run_off_index < SAMPLE_OFFSET; ++run_off_index)
    { output[out_index] = run_off[run_off_index]; ++out_index; }\<close>
  Its bound is the offset, not the number of samples of the call.
\<close>

function adt_emit_run_off ::
  "'a list \<Rightarrow> 'a list \<Rightarrow> int \<Rightarrow> int \<Rightarrow> ulong \<Rightarrow> fault + 'a list \<times> ulong" where
  "adt_emit_run_off run_off outbuf SAMPLE_OFFSET run_off_index out_index =
     (if run_off_index < SAMPLE_OFFSET then
        (if 0 \<le> run_off_index \<and> in_range run_off (nat run_off_index)
            \<and> in_range outbuf (unat out_index) then
           adt_emit_run_off run_off (outbuf[unat out_index := run_off ! nat run_off_index])
             SAMPLE_OFFSET (run_off_index + 1) (out_index + 1)
         else Inl OutOfBounds)
      else Inr (outbuf, out_index))"
  by pat_completeness auto
termination
  by (relation "measure (\<lambda>(run_off, outbuf, SAMPLE_OFFSET, run_off_index, out_index).
                    nat (SAMPLE_OFFSET - run_off_index))") auto

text \<open>
  The third fills the rest of the right output from the start of the right input:
  \<^verbatim>\<open>for (out_index = out_index; out_index < total_samples; ++out_index)
    { output[out_index] = input[in_index]; ++in_index; }\<close>
\<close>

function adt_copy_right ::
  "'a list \<Rightarrow> 'a list \<Rightarrow> ulong \<Rightarrow> ulong \<Rightarrow> ulong \<Rightarrow> fault + 'a list \<times> ulong" where
  "adt_copy_right inbuf outbuf total_samples in_index out_index =
     (if out_index < total_samples then
        (if in_range outbuf (unat out_index) \<and> in_range inbuf (unat in_index) then
           adt_copy_right inbuf (outbuf[unat out_index := inbuf ! unat in_index])
             total_samples (in_index + 1) (out_index + 1)
         else Inl OutOfBounds)
      else Inr (outbuf, in_index))"
  by pat_completeness auto
termination
proof (relation "measure (\<lambda>(inbuf, outbuf, total_samples, in_index, out_index).
                    unat total_samples - unat out_index)", goal_cases)
  case 1
  show ?case by simp
next
  case (2 inbuf outbuf total_samples in_index out_index)
  then have lt: "unat out_index < unat total_samples"
    by (simp add: word_less_nat_alt)
  moreover have "unat total_samples < 2 ^ 64"
    using unsigned_less [of total_samples] by simp
  ultimately have "unat (out_index + 1) = Suc (unat out_index)"
    by (simp add: unat_word_ariths)
  then show ?case using lt by simp
qed

text \<open>
  The fourth saves what is left of the right input in the run-off buffer:
  \<^verbatim>\<open>for (in_index = in_index; in_index < total_samples; ++in_index)
    { run_off[run_off_index] = input[in_index]; ++run_off_index; }\<close>
\<close>

function adt_save_run_off ::
  "'a list \<Rightarrow> 'a list \<Rightarrow> ulong \<Rightarrow> ulong \<Rightarrow> int \<Rightarrow> fault + 'a list" where
  "adt_save_run_off inbuf run_off total_samples in_index run_off_index =
     (if in_index < total_samples then
        (if 0 \<le> run_off_index \<and> in_range run_off (nat run_off_index)
            \<and> in_range inbuf (unat in_index) then
           adt_save_run_off inbuf (run_off[nat run_off_index := inbuf ! unat in_index])
             total_samples (in_index + 1) (run_off_index + 1)
         else Inl OutOfBounds)
      else Inr run_off)"
  by pat_completeness auto
termination
proof (relation "measure (\<lambda>(inbuf, run_off, total_samples, in_index, run_off_index).
                    unat total_samples - unat in_index)", goal_cases)
  case 1
  show ?case by simp
next
  case (2 inbuf run_off total_samples in_index run_off_index)
  then have lt: "unat in_index < unat total_samples"
    by (simp add: word_less_nat_alt)
  moreover have "unat total_samples < 2 ^ 64"
    using unsigned_less [of total_samples] by simp
  ultimately have "unat (in_index + 1) = Suc (unat in_index)"
    by (simp add: unat_word_ariths)
  then show ?case using lt by simp
qed

text \<open>
  \<^verbatim>\<open>run_Adt\<close>: the three guards return at once (their \<^verbatim>\<open>printf\<close> output is not
  modelled); a null instance is \<open>None\<close>.
\<close>

definition run_Adt :: "'a Adt option \<Rightarrow> ulong \<Rightarrow> fault + 'a Adt option" where
  "run_Adt inst total_samples =
     (if total_samples \<le> 1 then Inr inst
      else case inst of
        None \<Rightarrow> Inr None
      | Some adt \<Rightarrow>
          if adt_sample_rate adt < 1000 then Inr (Some adt)
          else
            (case GetOffsetInSamples (adt_sample_rate adt) (adt_offset adt) of
               Inl e \<Rightarrow> Inl e
             | Inr SAMPLE_OFFSET \<Rightarrow>
            (case adt_copy_left (adt_Input_Left adt) (adt_Output_Left adt) total_samples 0 0 of
               Inl e \<Rightarrow> Inl e
             | Inr out_left \<Rightarrow>
            (case adt_emit_run_off (block_run_off adt) (adt_Output_Right adt) SAMPLE_OFFSET 0 0 of
               Inl e \<Rightarrow> Inl e
             | Inr (out_right, out_index) \<Rightarrow>
            (case adt_copy_right (adt_Input_Right adt) out_right total_samples 0 out_index of
               Inl e \<Rightarrow> Inl e
             | Inr (out_right', in_index) \<Rightarrow>
            (case adt_save_run_off (adt_Input_Right adt) (block_run_off adt) total_samples in_index 0 of
               Inl e \<Rightarrow> Inl e
             | Inr run_off \<Rightarrow>
                 Inr (Some (adt\<lparr>adt_Output_Left := out_left, adt_Output_Right := out_right',
                                block_run_off := run_off\<rparr>))))))))"


section \<open>sb_esreveR.c: reversal of random-length runs\<close>

text \<open>
  The instance: the sample rate (a \<^verbatim>\<open>LADSPA_Data\<close>) and the two ports, which are
  distinct arrays.
\<close>

record 'a Reverse =
  rv_sample_rate :: real
  rv_Input :: "'a list"
  rv_Output :: "'a list"

text \<open>
  The inner loop, which copies one segment backwards:
  \<^verbatim>\<open>while (in_index >= start_position && in_index != 0xFFFFFFFFFFFFFFFF)
    { output_writer[out_index] = input_reader[in_index]; ++out_index; --in_index; }\<close>
  It stops after at most \<open>in_index + 1\<close> rounds: decrementing 0 wraps to the value
  the second test excludes.
\<close>

function reverse_block ::
  "'a list \<Rightarrow> 'a list \<Rightarrow> ulong \<Rightarrow> ulong \<Rightarrow> ulong \<Rightarrow> fault + 'a list \<times> ulong \<times> ulong" where
  "reverse_block input_reader output_writer start_position in_index out_index =
     (if in_index \<ge> start_position \<and> in_index \<noteq> 0xFFFFFFFFFFFFFFFF then
        (if in_range output_writer (unat out_index) \<and> in_range input_reader (unat in_index) then
           reverse_block input_reader
             (output_writer[unat out_index := input_reader ! unat in_index])
             start_position (in_index - 1) (out_index + 1)
         else Inl OutOfBounds)
      else Inr (output_writer, in_index, out_index))"
  by pat_completeness auto
termination
proof (relation "measure (\<lambda>(input_reader, output_writer, start_position, in_index, out_index).
                    unat (in_index + 1))", goal_cases)
  case 1
  show ?case by simp
next
  case (2 input_reader output_writer start_position in_index out_index)
  moreover have "(0xFFFFFFFFFFFFFFFF :: ulong) = - 1"
    by simp
  ultimately have "in_index \<noteq> - 1"
    by simp
  then have "in_index + 1 \<noteq> 0"
    by (simp add: eq_neg_iff_add_eq_0)
  then have "unat (in_index + 1 - 1) < unat (in_index + 1)"
    by (rule measure_unat)
  then show ?case by simp
qed

text \<open>
  The first half of the body of the outer loop: the bounds of the draw, and the
  choice of \<^verbatim>\<open>in_index\<close> (and of \<^verbatim>\<open>random_num\<close>, which stays 0 when the segment runs to
  the end of the buffer). The result is \<open>(random_num, in_index, k')\<close>, with \<open>k'\<close> the
  number of draws made so far.
\<close>

definition reverse_pick ::
  "(nat \<Rightarrow> ulong) \<Rightarrow> nat \<Rightarrow> ulong \<Rightarrow> ulong \<Rightarrow> ulong \<Rightarrow> ulong \<Rightarrow> fault + ulong \<times> ulong \<times> nat" where
  "reverse_pick rnd k MIN_SAMPLES MAX_SAMPLES total_sample_count start_position =
     (let rand_num_lower_bound = start_position + MIN_SAMPLES;
          rand_num_upper_bound = start_position + MAX_SAMPLES
      in if MIN_SAMPLES \<ge> total_sample_count
            \<or> rand_num_lower_bound \<ge> total_sample_count - MIN_SAMPLES
         then Inr (0, total_sample_count - 1, k)
         else
           (let rand_num_upper_bound =
                  (if rand_num_upper_bound > total_sample_count - MIN_SAMPLES
                   then total_sample_count - MIN_SAMPLES else rand_num_upper_bound)
            in case GetRandomNaturalNumber (rnd k) rand_num_lower_bound rand_num_upper_bound of
                 Inl e \<Rightarrow> Inl e
               | Inr random_num \<Rightarrow> Inr (random_num, random_num - 1, Suc k)))"

text \<open>
  The outer loop \<^verbatim>\<open>while (out_index < total_sample_count)\<close>. Nothing in its text bounds
  the number of rounds, so it is a partial function: \<open>None\<close> is a run that does not
  return.
\<close>

partial_function (option) reverse_loop ::
  "(nat \<Rightarrow> ulong) \<Rightarrow> 'a list \<Rightarrow> ulong \<Rightarrow> ulong \<Rightarrow> ulong \<Rightarrow> 'a list \<Rightarrow> ulong \<Rightarrow> ulong \<Rightarrow> nat
     \<Rightarrow> (ulong \<times> ulong) list \<Rightarrow> (fault + 'a list \<times> (ulong \<times> ulong) list) option" where
  "reverse_loop rnd input_reader MIN_SAMPLES MAX_SAMPLES total_sample_count
       output_writer start_position out_index k plan =
     (if out_index < total_sample_count then
        (case reverse_pick rnd k MIN_SAMPLES MAX_SAMPLES total_sample_count start_position of
           Inl e \<Rightarrow> Some (Inl e)
         | Inr (random_num, in_index, k') \<Rightarrow>
             (case reverse_block input_reader output_writer start_position in_index out_index of
                Inl e \<Rightarrow> Some (Inl e)
              | Inr (output_writer', in_index', out_index') \<Rightarrow>
                  reverse_loop rnd input_reader MIN_SAMPLES MAX_SAMPLES total_sample_count
                    output_writer' random_num out_index' k'
                    (plan @ [(start_position, in_index)])))
      else Some (Inr (output_writer, plan)))"

text \<open>
  \<^verbatim>\<open>run_Reverse\<close>: the guards, the two constants (products of a \<^verbatim>\<open>double\<close> with the
  sample rate, converted to \<^verbatim>\<open>unsigned long\<close>) and the loop.
\<close>

definition run_Reverse ::
  "(nat \<Rightarrow> ulong) \<Rightarrow> 'a Reverse option \<Rightarrow> ulong \<Rightarrow> (fault + 'a Reverse option) option" where
  "run_Reverse rnd inst total_sample_count =
     (if total_sample_count \<le> 1 then Some (Inr inst)
      else case inst of
        None \<Rightarrow> Some (Inr None)
      | Some reverse \<Rightarrow>
          if rv_sample_rate reverse < 10 then Some (Inr (Some reverse))
          else
            (case real_to_ulong (0.2 * rv_sample_rate reverse) of
               Inl e \<Rightarrow> Some (Inl e)
             | Inr MIN_SAMPLES \<Rightarrow>
            (case real_to_ulong (1.5 * rv_sample_rate reverse) of
               Inl e \<Rightarrow> Some (Inl e)
             | Inr MAX_SAMPLES \<Rightarrow>
            (case reverse_loop rnd (rv_Input reverse) MIN_SAMPLES MAX_SAMPLES total_sample_count
                    (rv_Output reverse) 0 0 0 [] of
               None \<Rightarrow> None
             | Some (Inl e) \<Rightarrow> Some (Inl e)
             | Some (Inr (output_writer, plan)) \<Rightarrow>
                 Some (Inr (Some (reverse\<lparr>rv_Output := output_writer\<rparr>)))))))"

section \<open>sb_kite.c: random cut, reversal and splice\<close>

text \<open>
  \<^verbatim>\<open>CopySubBlock\<close> is called with two pointers that are the same buffer when the
  used part of an input buffer is overwritten, so the buffers of an instance are
  addressed by name and read from the instance at every step.
\<close>

text \<open>The instance; here the sample rate is an \<^verbatim>\<open>unsigned long\<close>.\<close>

record 'a Kite =
  kt_sample_rate :: ulong
  kt_Input_Left :: "'a list"
  kt_Input_Right :: "'a list"
  kt_Output_Left :: "'a list"
  kt_Output_Right :: "'a list"

datatype kite_buffer = INPUT_LEFT | INPUT_RIGHT | OUTPUT_LEFT | OUTPUT_RIGHT

fun deref :: "'a Kite \<Rightarrow> kite_buffer \<Rightarrow> 'a list" where
  "deref kite INPUT_LEFT = kt_Input_Left kite"
| "deref kite INPUT_RIGHT = kt_Input_Right kite"
| "deref kite OUTPUT_LEFT = kt_Output_Left kite"
| "deref kite OUTPUT_RIGHT = kt_Output_Right kite"

fun store :: "'a Kite \<Rightarrow> kite_buffer \<Rightarrow> 'a list \<Rightarrow> 'a Kite" where
  "store kite INPUT_LEFT buf = kite\<lparr>kt_Input_Left := buf\<rparr>"
| "store kite INPUT_RIGHT buf = kite\<lparr>kt_Input_Right := buf\<rparr>"
| "store kite OUTPUT_LEFT buf = kite\<lparr>kt_Output_Left := buf\<rparr>"
| "store kite OUTPUT_RIGHT buf = kite\<lparr>kt_Output_Right := buf\<rparr>"

text \<open>
  \<^verbatim>\<open>ApplyReverse\<close> swaps from both ends:
  \<^verbatim>\<open>while (start <= end) { holder = buffer[start]; buffer[start] = buffer[end];
    buffer[end] = holder; ++start; --end; }\<close>
  (the parameter \<^verbatim>\<open>end\<close> is written \<open>end'\<close>). Decrementing \<^verbatim>\<open>end\<close> from 0 wraps, after
  which the next access is outside every buffer.
\<close>

function ApplyReverse :: "'a list \<Rightarrow> ulong \<Rightarrow> ulong \<Rightarrow> fault + 'a list" where
  "ApplyReverse buffer start end' =
     (if start \<le> end' then
        (if in_range buffer (unat start) \<and> in_range buffer (unat end') then
           (let holder = buffer ! unat start;
                buffer1 = buffer[unat start := buffer ! unat end'];
                buffer2 = buffer1[unat end' := holder]
            in ApplyReverse buffer2 (start + 1) (end' - 1))
         else Inl OutOfBounds)
      else Inr buffer)"
  by pat_completeness auto
termination
proof (relation "measure (\<lambda>(buffer, start, end').
                    if in_range buffer (unat end') then Suc (unat end') else 0)", goal_cases)
  case 1
  show ?case by simp
next
  case (2 buffer start end' holder buffer1 buffer2)
  then have r: "in_range buffer (unat end')" and len: "length buffer2 = length buffer"
    by simp_all
  show ?case
  proof (cases "end' = 0")
    case True
    then have "unat (end' - 1) = 2 ^ 64 - 1"
      by (simp add: unsigned_minus_1_eq_mask mask_eq_exp_minus_1)
    then have "\<not> in_range buffer2 (unat (end' - 1))"
      by (simp add: in_range_def)
    then show ?thesis using r by simp
  next
    case False
    then have "unat (end' - 1) < unat end'"
      by (rule measure_unat)
    then show ?thesis using r by simp
  qed
qed

text \<open>
  \<^verbatim>\<open>CopySubBlock\<close>: the guard
  \<^verbatim>\<open>if (dest_start == src_start || src_start > src_end) return;\<close>
  and the loop
  \<^verbatim>\<open>for (src_index = src_start; src_index <= src_end; ++src_index)
    { destination[dest_index] = source[src_index]; ++dest_index; }\<close>
\<close>

function CopySubBlock_loop ::
  "'a Kite \<Rightarrow> kite_buffer \<Rightarrow> ulong \<Rightarrow> kite_buffer \<Rightarrow> ulong \<Rightarrow> ulong \<Rightarrow> fault + 'a Kite" where
  "CopySubBlock_loop kite destination dest_index source src_index src_end =
     (if src_index \<le> src_end then
        (if in_range (deref kite destination) (unat dest_index)
            \<and> in_range (deref kite source) (unat src_index) then
           CopySubBlock_loop
             (store kite destination
                ((deref kite destination)[unat dest_index := deref kite source ! unat src_index]))
             destination (dest_index + 1) source (src_index + 1) src_end
         else Inl OutOfBounds)
      else Inr kite)"
  by pat_completeness auto
termination
proof (relation "measure (\<lambda>(kite, destination, dest_index, source, src_index, src_end).
                    Suc (unat src_end) - unat src_index)", goal_cases)
  case 1
  show ?case by simp
next
  case (2 kite destination dest_index source src_index src_end)
  then have "unat src_index < 2 ^ 61" and le: "unat src_index \<le> unat src_end"
    by (simp_all add: in_range_def word_le_nat_alt)
  then have "unat (src_index + 1) = Suc (unat src_index)"
    by (simp add: unat_word_ariths)
  then show ?case using le by simp
qed

definition CopySubBlock ::
  "'a Kite \<Rightarrow> kite_buffer \<Rightarrow> ulong \<Rightarrow> kite_buffer \<Rightarrow> ulong \<Rightarrow> ulong \<Rightarrow> fault + 'a Kite" where
  "CopySubBlock kite destination dest_start source src_start src_end =
     (if dest_start = src_start \<or> src_start > src_end then Inr kite
      else CopySubBlock_loop kite destination dest_start source src_start src_end)"

text \<open>
  The body of the loop of \<^verbatim>\<open>run_Kite\<close>, in the order of the source: the choice of the
  start and end positions of the segment (three branches), the draw that decides
  the reversal, the reversal of both input channels, the copy to both outputs, and
  the overwriting of the used part of both inputs.
\<close>

definition kite_pick ::
  "(nat \<Rightarrow> ulong) \<Rightarrow> nat \<Rightarrow> ulong \<Rightarrow> ulong \<Rightarrow> ulong \<Rightarrow> fault + ulong \<times> ulong \<times> nat" where
  "kite_pick rnd k MIN_BLOCK_START MAX_BLOCK_END samples_remaining =
     (let rand_num_lower_bound = MIN_BLOCK_START;
          rand_num_upper_bound = MAX_BLOCK_END
      in if samples_remaining \<le> MIN_BLOCK_START * 2
         then Inr (0, samples_remaining - 1, k)
         else if samples_remaining \<le> MAX_BLOCK_END
         then
           (let rand_num_upper_bound = samples_remaining - MIN_BLOCK_START
            in case GetRandomNaturalNumber (rnd k) rand_num_lower_bound rand_num_upper_bound of
                 Inl e \<Rightarrow> Inl e
               | Inr block_start_position \<Rightarrow>
                   Inr (block_start_position, samples_remaining - 1, Suc k))
         else
           (case GetRandomNaturalNumber (rnd k) rand_num_lower_bound rand_num_upper_bound of
              Inl e \<Rightarrow> Inl e
            | Inr block_start_position \<Rightarrow>
                (let rand_num_lower_bound = block_start_position + MIN_BLOCK_START;
                     rand_num_upper_bound =
                       (if samples_remaining
                             < block_start_position + MAX_BLOCK_END - MIN_BLOCK_START
                        then samples_remaining
                        else block_start_position + MAX_BLOCK_END - MIN_BLOCK_START - 1)
                 in case GetRandomNaturalNumber (rnd (Suc k))
                           rand_num_lower_bound rand_num_upper_bound of
                      Inl e \<Rightarrow> Inl e
                    | Inr block_end_position \<Rightarrow>
                        Inr (block_start_position, block_end_position, Suc (Suc k)))))"

definition kite_reverse ::
  "'a Kite \<Rightarrow> ulong \<Rightarrow> ulong \<Rightarrow> ulong \<Rightarrow> fault + 'a Kite" where
  "kite_reverse kite reverse block_start_position block_end_position =
     (if reverse = 0 then
        (case ApplyReverse (kt_Input_Left kite) block_start_position block_end_position of
           Inl e \<Rightarrow> Inl e
         | Inr left \<Rightarrow>
        (case ApplyReverse (kt_Input_Right kite) block_start_position block_end_position of
           Inl e \<Rightarrow> Inl e
         | Inr right \<Rightarrow> Inr (kite\<lparr>kt_Input_Left := left, kt_Input_Right := right\<rparr>)))
      else Inr kite)"

definition kite_emit ::
  "'a Kite \<Rightarrow> ulong \<Rightarrow> ulong \<Rightarrow> ulong \<Rightarrow> fault + 'a Kite" where
  "kite_emit kite out_index block_start_position block_end_position =
     (case CopySubBlock kite OUTPUT_LEFT out_index INPUT_LEFT
             block_start_position block_end_position of
        Inl e \<Rightarrow> Inl e
      | Inr kite1 \<Rightarrow>
          CopySubBlock kite1 OUTPUT_RIGHT out_index INPUT_RIGHT
            block_start_position block_end_position)"

definition kite_compact ::
  "'a Kite \<Rightarrow> ulong \<Rightarrow> ulong \<Rightarrow> ulong \<Rightarrow> ulong \<Rightarrow> fault + 'a Kite" where
  "kite_compact kite samples_remaining samples_copied block_start_position block_end_position =
     (let source_start =
            (if samples_remaining - samples_copied > block_end_position
             then samples_remaining - samples_copied
             else block_end_position + 1)
      in case CopySubBlock kite INPUT_LEFT block_start_position INPUT_LEFT
                source_start (samples_remaining - 1) of
           Inl e \<Rightarrow> Inl e
         | Inr kite1 \<Rightarrow>
             CopySubBlock kite1 INPUT_RIGHT block_start_position INPUT_RIGHT
               source_start (samples_remaining - 1))"

definition kite_body ::
  "(nat \<Rightarrow> ulong) \<Rightarrow> ulong \<Rightarrow> ulong \<Rightarrow> 'a Kite \<Rightarrow> ulong \<Rightarrow> ulong \<Rightarrow> nat
     \<Rightarrow> fault + 'a Kite \<times> ulong \<times> ulong \<times> nat \<times> (ulong \<times> ulong)" where
  "kite_body rnd MIN_BLOCK_START MAX_BLOCK_END kite out_index samples_remaining k =
     (case kite_pick rnd k MIN_BLOCK_START MAX_BLOCK_END samples_remaining of
        Inl e \<Rightarrow> Inl e
      | Inr (block_start_position, block_end_position, k1) \<Rightarrow>
     (case GetRandomNaturalNumber (rnd k1) 0 2 of
        Inl e \<Rightarrow> Inl e
      | Inr reverse \<Rightarrow>
     (case kite_reverse kite reverse block_start_position block_end_position of
        Inl e \<Rightarrow> Inl e
      | Inr kite1 \<Rightarrow>
     (case kite_emit kite1 out_index block_start_position block_end_position of
        Inl e \<Rightarrow> Inl e
      | Inr kite2 \<Rightarrow>
     (let samples_copied = block_end_position - block_start_position + 1
      in case kite_compact kite2 samples_remaining samples_copied
                block_start_position block_end_position of
           Inl e \<Rightarrow> Inl e
         | Inr kite3 \<Rightarrow>
             Inr (kite3, out_index + samples_copied, samples_remaining - samples_copied,
                  Suc k1, (block_start_position, block_end_position)))))))"

text \<open>The loop \<^verbatim>\<open>while (out_index < total_samples)\<close>, a partial function as above.\<close>

partial_function (option) kite_loop ::
  "(nat \<Rightarrow> ulong) \<Rightarrow> ulong \<Rightarrow> ulong \<Rightarrow> ulong \<Rightarrow> 'a Kite \<Rightarrow> ulong \<Rightarrow> ulong \<Rightarrow> nat
     \<Rightarrow> (ulong \<times> ulong) list \<Rightarrow> (fault + 'a Kite \<times> (ulong \<times> ulong) list) option" where
  "kite_loop rnd MIN_BLOCK_START MAX_BLOCK_END total_samples kite out_index samples_remaining k
       plan =
     (if out_index < total_samples then
        (case kite_body rnd MIN_BLOCK_START MAX_BLOCK_END kite out_index samples_remaining k of
           Inl e \<Rightarrow> Some (Inl e)
         | Inr (kite', out_index', samples_remaining', k', segment) \<Rightarrow>
             kite_loop rnd MIN_BLOCK_START MAX_BLOCK_END total_samples
               kite' out_index' samples_remaining' k' (plan @ [segment]))
      else Some (Inr (kite, plan)))"

text \<open>
  \<^verbatim>\<open>run_Kite\<close>: the guards, \<^verbatim>\<open>MIN_BLOCK_START = (unsigned long) (0.25 * sample_rate)\<close>,
  \<^verbatim>\<open>MAX_BLOCK_END = MIN_BLOCK_START + (2 * sample_rate)\<close> and the loop.
\<close>

definition run_Kite ::
  "(nat \<Rightarrow> ulong) \<Rightarrow> 'a Kite option \<Rightarrow> ulong \<Rightarrow> (fault + 'a Kite option) option" where
  "run_Kite rnd inst total_samples =
     (if total_samples \<le> 1 then Some (Inr inst)
      else case inst of
        None \<Rightarrow> Some (Inr None)
      | Some kite \<Rightarrow>
          if kt_sample_rate kite = 0 then Some (Inr (Some kite))
          else
            (case real_to_ulong (0.25 * real (unat (kt_sample_rate kite))) of
               Inl e \<Rightarrow> Some (Inl e)
             | Inr MIN_BLOCK_START \<Rightarrow>
                 (let MAX_BLOCK_END = MIN_BLOCK_START + 2 * kt_sample_rate kite
                  in case kite_loop rnd MIN_BLOCK_START MAX_BLOCK_END total_samples
                            kite 0 total_samples 0 [] of
                       None \<Rightarrow> None
                     | Some (Inl e) \<Rightarrow> Some (Inl e)
                     | Some (Inr (kite', plan)) \<Rightarrow> Some (Inr (Some kite')))))"

text \<open>The loops are unfolded by hand in the proofs below.\<close>

declare adt_copy_left.simps [simp del] adt_emit_run_off.simps [simp del]
  adt_copy_right.simps [simp del] adt_save_run_off.simps [simp del]
  reverse_block.simps [simp del] ApplyReverse.simps [simp del]
  CopySubBlock_loop.simps [simp del]

section \<open>Properties of the generator\<close>

lemma cursor_mask_range: "0 \<le> (j::int) AND 63 \<and> j AND 63 < 64"
proof -
  have "j AND 63 = j mod 2 ^ 6"
    using take_bit_eq_mask [of 6 j] by (simp add: take_bit_eq_mod mask_eq_exp_minus_1)
  then show ?thesis by simp
qed

lemma length_fill_array: "length (snd (fill_array n k v w weyl xs)) = length xs"
  by (induction n arbitrary: k v w xs) (simp_all add: Let_def)

lemma length_discard_rounds: "length (snd (discard_rounds n i xs)) = length xs"
  by (induction n arbitrary: i xs) (simp_all add: Let_def)

text \<open>
  Any call leaves the state initialised: the cursor is not negative and the array
  keeps its 64 words. So the hypotheses of the next theorem hold from the second
  call on.
\<close>

lemma xor4096i_leaves_initialised:
  assumes "length (xg_x st) = 64"
  shows "0 \<le> xg_i (snd (xor4096i seed st)) \<and> length (xg_x (snd (xor4096i seed st))) = 64"
proof -
  have g: "0 \<le> xg_i (snd (generator s)) \<and> length (xg_x (snd (generator s))) = length (xg_x s)"
    for s
    using cursor_mask_range [of "xg_i s + 1"] by (simp add: generator_def Let_def)
  have "length (xg_x (initialise seed st)) = 64"
    using assms length_fill_array length_discard_rounds
    by (simp add: initialise_def Let_def split: prod.splits) (metis snd_conv)
  then show ?thesis
    using assms g [of st] g [of "initialise seed st"] by (simp add: xor4096i_def)
qed

text \<open>
  C8. Once the state exists (the cursor is no longer negative), a call with seed zero
  does not run the initialisation: the Weyl increment is untouched, the accumulator
  grows by exactly one increment, the cursor advances by one modulo 64, exactly one
  word of the circular array (the one under the new cursor) is replaced by the
  xor-shift combination, every other word is kept, and the value returned is that
  word plus the scrambled accumulator.
\<close>

theorem xor4096i_zero_seed_single_step:
  assumes "0 \<le> xg_i st" and "length (xg_x st) = 64"
  shows "case xor4096i 0 st of (res, st') \<Rightarrow>
           xg_weyl st' = xg_weyl st \<and>
           xg_w st' = xg_w st + xg_weyl st \<and>
           xg_i st' = (xg_i st + 1) AND 63 \<and>
           length (xg_x st') = 64 \<and>
           (\<forall>k < 64. k \<noteq> nat (xg_i st') \<longrightarrow> xg_x st' ! k = xg_x st ! k) \<and>
           xg_x st' ! nat (xg_i st') =
             mix_v (xg_x st ! nat ((xg_i st' + 11) AND 63)) XOR mix_t (xg_x st ! nat (xg_i st')) \<and>
           res = xg_x st' ! nat (xg_i st') + (xg_w st' XOR drop_bit 27 (xg_w st'))"
proof -
  let ?i = "(xg_i st + 1) AND 63"
  have "0 \<le> ?i" and "?i < 64"
    using cursor_mask_range [of "xg_i st + 1"] by simp_all
  then have "nat ?i < length (xg_x st)"
    using assms(2) by linarith
  then show ?thesis
    using assms by (simp add: xor4096i_def generator_def Let_def)
qed

theorem xor4096i_zero_seed_single_step_witness:
  "0 \<le> xg_i \<lparr>xg_w = 5, xg_weyl = 7, xg_x = replicate 64 1, xg_i = 63\<rparr> \<and>
   length (xg_x \<lparr>xg_w = 5, xg_weyl = 7, xg_x = replicate 64 1, xg_i = 63\<rparr>) = 64 \<and>
   (case xor4096i 0 \<lparr>xg_w = 5, xg_weyl = 7, xg_x = replicate 64 1, xg_i = 63\<rparr> of
      (res, st') \<Rightarrow> xg_weyl st' = 7 \<and> xg_w st' = 12 \<and> xg_i st' = 0 \<and> length (xg_x st') = 64)"
  using xor4096i_zero_seed_single_step
          [of "\<lparr>xg_w = 5, xg_weyl = 7, xg_x = replicate 64 1, xg_i = 63\<rparr>"]
  by (simp split: prod.splits)

section \<open>Words and block copies\<close>

lemma unat_inc_nat: "unat (i::ulong) < n \<Longrightarrow> n < 2 ^ 64 \<Longrightarrow> unat (i + 1) = Suc (unat i)"
  by (simp add: unat_word_ariths)

lemma unat_inc: "(i::ulong) < n \<Longrightarrow> unat (i + 1) = Suc (unat i)"
  using unat_inc_nat [of i "unat n"] unsigned_less [of n] by (simp add: word_less_nat_alt)

lemma unat_dec: "(i::ulong) \<noteq> 0 \<Longrightarrow> unat (i - 1) = unat i - 1"
  by unat_arith

lemma blit_step:
  assumes "s < length src" "d < length dst" 
  shows "blit src (Suc s) (dst[d := src ! s]) (Suc d) n = blit src s dst d (Suc n)"
  using assms
  by (simp add: blit_def take_Suc_conv_app_nth Cons_nth_drop_Suc [symmetric])

lemma blit_zero: "blit src s dst d 0 = dst"
  by (simp add: blit_def)

section \<open>The four loops of \<^verbatim>\<open>run_Adt\<close>\<close>

lemma adt_copy_left_blit:
  assumes "unat in_index \<le> unat total_samples" "unat total_samples \<le> length inbuf"
    "unat out_index + (unat total_samples - unat in_index) \<le> length outbuf"
    "length inbuf < 2 ^ 61" "length outbuf < 2 ^ 61"
  shows "adt_copy_left inbuf outbuf total_samples in_index out_index =
         Inr (blit inbuf (unat in_index) outbuf (unat out_index) (unat total_samples - unat in_index))"
  using assms
proof (induction inbuf outbuf total_samples in_index out_index rule: adt_copy_left.induct)
  case (1 inbuf outbuf total_samples in_index out_index)
  show ?case
  proof (cases "in_index < total_samples")
    case False
    then have "unat total_samples - unat in_index = 0"
      by (simp add: word_less_nat_alt)
    with False show ?thesis
      by (subst adt_copy_left.simps) (simp add: blit_zero)
  next
    case True
    then have lt: "unat in_index < unat total_samples"
      by (simp add: word_less_nat_alt)
    have ui: "unat (in_index + 1) = Suc (unat in_index)"
      using True by (rule unat_inc)
    have olt: "unat out_index < length outbuf"
      using lt "1.prems" by linarith
    have uo: "unat (out_index + 1) = Suc (unat out_index)"
      using olt "1.prems"(5) by (intro unat_inc_nat [of _ "length outbuf"]) simp_all
    have rng: "in_range inbuf (unat in_index) \<and> in_range outbuf (unat out_index)"
      using lt olt "1.prems" by (simp add: in_range_def)
    have "adt_copy_left inbuf (outbuf[unat out_index := inbuf ! unat in_index])
             total_samples (in_index + 1) (out_index + 1) =
          Inr (blit inbuf (unat (in_index + 1)) (outbuf[unat out_index := inbuf ! unat in_index])
                 (unat (out_index + 1)) (unat total_samples - unat (in_index + 1)))"
      using True rng lt "1.prems" ui uo by (intro "1.IH") simp_all
    also have "\<dots> = Inr (blit inbuf (unat in_index) outbuf (unat out_index)
                 (Suc (unat total_samples - Suc (unat in_index))))"
      using lt olt "1.prems" by (simp add: ui uo blit_step)
    finally show ?thesis
      using True rng lt by (subst adt_copy_left.simps) (simp add: Suc_diff_Suc)
  qed
qed

lemma adt_emit_run_off_blit:
  assumes "0 \<le> run_off_index" "run_off_index \<le> SAMPLE_OFFSET"
    "nat SAMPLE_OFFSET \<le> length run_off"
    "unat out_index + nat (SAMPLE_OFFSET - run_off_index) \<le> length outbuf"
    "length run_off < 2 ^ 61" "length outbuf < 2 ^ 61"
  shows "adt_emit_run_off run_off outbuf SAMPLE_OFFSET run_off_index out_index =
         Inr (blit run_off (nat run_off_index) outbuf (unat out_index)
                (nat (SAMPLE_OFFSET - run_off_index)),
              out_index + of_nat (nat (SAMPLE_OFFSET - run_off_index)))"
  using assms
proof (induction run_off outbuf SAMPLE_OFFSET run_off_index out_index
       rule: adt_emit_run_off.induct)
  case (1 run_off outbuf SAMPLE_OFFSET run_off_index out_index)
  show ?case
  proof (cases "run_off_index < SAMPLE_OFFSET")
    case False
    then have "nat (SAMPLE_OFFSET - run_off_index) = 0"
      by simp
    with False show ?thesis
      by (subst adt_emit_run_off.simps) (simp add: blit_zero)
  next
    case True
    have olt: "unat out_index < length outbuf"
      using True "1.prems" by linarith
    have uo: "unat (out_index + 1) = Suc (unat out_index)"
      using olt "1.prems"(6) by (intro unat_inc_nat [of _ "length outbuf"]) simp_all
    have rlt: "nat run_off_index < length run_off"
      using True "1.prems" by linarith
    have rng: "0 \<le> run_off_index \<and> in_range run_off (nat run_off_index)
               \<and> in_range outbuf (unat out_index)"
      using rlt olt "1.prems" by (simp add: in_range_def)
    have cnt: "nat (SAMPLE_OFFSET - run_off_index) = Suc (nat (SAMPLE_OFFSET - (run_off_index + 1)))"
      using True by linarith
    have nx: "nat (run_off_index + 1) = Suc (nat run_off_index)"
      using "1.prems"(1) by linarith
    have "adt_emit_run_off run_off (outbuf[unat out_index := run_off ! nat run_off_index])
             SAMPLE_OFFSET (run_off_index + 1) (out_index + 1) =
          Inr (blit run_off (nat (run_off_index + 1))
                 (outbuf[unat out_index := run_off ! nat run_off_index])
                 (unat (out_index + 1)) (nat (SAMPLE_OFFSET - (run_off_index + 1))),
               out_index + 1 + of_nat (nat (SAMPLE_OFFSET - (run_off_index + 1))))"
      using True rng "1.prems" uo cnt by (intro "1.IH") simp_all
    also have "\<dots> = Inr (blit run_off (nat run_off_index) outbuf (unat out_index)
                 (nat (SAMPLE_OFFSET - run_off_index)),
               out_index + of_nat (nat (SAMPLE_OFFSET - run_off_index)))"
      using rlt olt by (simp add: nx uo cnt blit_step)
    finally show ?thesis
      using True rng by (subst adt_emit_run_off.simps) simp
  qed
qed

lemma adt_copy_right_blit:
  assumes "unat out_index \<le> unat total_samples" "unat total_samples \<le> length outbuf"
    "unat in_index + (unat total_samples - unat out_index) \<le> length inbuf"
    "length inbuf < 2 ^ 61" "length outbuf < 2 ^ 61"
  shows "adt_copy_right inbuf outbuf total_samples in_index out_index =
         Inr (blit inbuf (unat in_index) outbuf (unat out_index)
                (unat total_samples - unat out_index),
              in_index + (total_samples - out_index))"
  using assms
proof (induction inbuf outbuf total_samples in_index out_index rule: adt_copy_right.induct)
  case (1 inbuf outbuf total_samples in_index out_index)
  show ?case
  proof (cases "out_index < total_samples")
    case False
    then have "unat total_samples - unat out_index = 0" and "total_samples = out_index"
      using "1.prems"(1) by (simp_all add: word_less_nat_alt word_unat_eq_iff)
    with False show ?thesis
      by (subst adt_copy_right.simps) (simp add: blit_zero)
  next
    case True
    then have lt: "unat out_index < unat total_samples"
      by (simp add: word_less_nat_alt)
    have uo: "unat (out_index + 1) = Suc (unat out_index)"
      using True by (rule unat_inc)
    have ilt: "unat in_index < length inbuf"
      using lt "1.prems" by linarith
    have ui: "unat (in_index + 1) = Suc (unat in_index)"
      using ilt "1.prems"(4) by (intro unat_inc_nat [of _ "length inbuf"]) simp_all
    have rng: "in_range outbuf (unat out_index) \<and> in_range inbuf (unat in_index)"
      using lt ilt "1.prems" by (simp add: in_range_def)
    have "adt_copy_right inbuf (outbuf[unat out_index := inbuf ! unat in_index])
             total_samples (in_index + 1) (out_index + 1) =
          Inr (blit inbuf (unat (in_index + 1)) (outbuf[unat out_index := inbuf ! unat in_index])
                 (unat (out_index + 1)) (unat total_samples - unat (out_index + 1)),
               in_index + 1 + (total_samples - (out_index + 1)))"
      using True rng lt "1.prems" ui uo by (intro "1.IH") simp_all
    also have "\<dots> = Inr (blit inbuf (unat in_index) outbuf (unat out_index)
                 (Suc (unat total_samples - Suc (unat out_index))),
               in_index + (total_samples - out_index))"
      using lt ilt "1.prems" by (simp add: ui uo blit_step)
    finally show ?thesis
      using True rng lt by (subst adt_copy_right.simps) (simp add: Suc_diff_Suc)
  qed
qed

lemma adt_save_run_off_blit:
  assumes "unat in_index \<le> unat total_samples" "unat total_samples \<le> length inbuf"
    "0 \<le> run_off_index"
    "nat run_off_index + (unat total_samples - unat in_index) \<le> length run_off"
    "length inbuf < 2 ^ 61" "length run_off < 2 ^ 61"
  shows "adt_save_run_off inbuf run_off total_samples in_index run_off_index =
         Inr (blit inbuf (unat in_index) run_off (nat run_off_index)
                (unat total_samples - unat in_index))"
  using assms
proof (induction inbuf run_off total_samples in_index run_off_index
       rule: adt_save_run_off.induct)
  case (1 inbuf run_off total_samples in_index run_off_index)
  show ?case
  proof (cases "in_index < total_samples")
    case False
    then have "unat total_samples - unat in_index = 0"
      by (simp add: word_less_nat_alt)
    with False show ?thesis
      by (subst adt_save_run_off.simps) (simp add: blit_zero)
  next
    case True
    then have lt: "unat in_index < unat total_samples"
      by (simp add: word_less_nat_alt)
    have ui: "unat (in_index + 1) = Suc (unat in_index)"
      using True by (rule unat_inc)
    have rlt: "nat run_off_index < length run_off"
      using lt "1.prems" by linarith
    have nx: "nat (run_off_index + 1) = Suc (nat run_off_index)"
      using "1.prems"(3) by linarith
    have rng: "0 \<le> run_off_index \<and> in_range run_off (nat run_off_index)
               \<and> in_range inbuf (unat in_index)"
      using lt rlt "1.prems" by (simp add: in_range_def)
    have "adt_save_run_off inbuf (run_off[nat run_off_index := inbuf ! unat in_index])
             total_samples (in_index + 1) (run_off_index + 1) =
          Inr (blit inbuf (unat (in_index + 1)) (run_off[nat run_off_index := inbuf ! unat in_index])
                 (nat (run_off_index + 1)) (unat total_samples - unat (in_index + 1)))"
      using True rng lt "1.prems" ui nx by (intro "1.IH") simp_all
    also have "\<dots> = Inr (blit inbuf (unat in_index) run_off (nat run_off_index)
                 (Suc (unat total_samples - Suc (unat in_index))))"
      using lt rlt "1.prems" by (simp add: ui nx blit_step)
    finally show ?thesis
      using True rng lt by (subst adt_save_run_off.simps) (simp add: Suc_diff_Suc)
  qed
qed


section \<open>Rounding to single precision\<close>

text \<open>
  Rounding to the nearest integer and rounding to the nearest \<^verbatim>\<open>float\<close> are monotone,
  and a number whose binade is known is rounded in the unit of that binade.
\<close>

lemma round_half_even_bounds: "\<lfloor>r\<rfloor> \<le> round_half_even r \<and> round_half_even r \<le> \<lfloor>r\<rfloor> + 1"
  by (simp add: round_half_even_def Let_def)

lemma round_half_even_mono:
  assumes "a \<le> b"
  shows "round_half_even a \<le> round_half_even b"
proof (cases "\<lfloor>a\<rfloor> = \<lfloor>b\<rfloor>")
  case True
  then have "a - of_int \<lfloor>a\<rfloor> \<le> b - of_int \<lfloor>b\<rfloor>"
    using assms by simp
  then show ?thesis
    using True by (auto simp: round_half_even_def Let_def)
next
  case False
  then have "\<lfloor>a\<rfloor> < \<lfloor>b\<rfloor>"
    using floor_mono [OF assms] by simp
  then show ?thesis
    using round_half_even_bounds [of a] round_half_even_bounds [of b] by linarith
qed

lemma round_half_even_le_int:
  assumes "r \<le> of_int n"
  shows "round_half_even r \<le> n"
proof (cases "\<lfloor>r\<rfloor> < n")
  case True
  then show ?thesis
    using round_half_even_bounds [of r] by linarith
next
  case False
  moreover have "\<lfloor>r\<rfloor> \<le> n"
    using floor_mono [OF assms] by simp
  ultimately have "\<lfloor>r\<rfloor> = n"
    by simp
  then have "r = of_int n"
    using assms of_int_floor_le [of r] by simp
  then show ?thesis
    by (simp add: round_half_even_def)
qed

lemma round_half_even_ge_int: "of_int n \<le> r \<Longrightarrow> n \<le> round_half_even r"
  using round_half_even_bounds [of r] le_floor_iff [of n r] by linarith

lemma float_exp_search_range: "e \<le> float_exp_search n e x \<and> float_exp_search n e x \<le> e + int n"
proof (induction n arbitrary: e)
  case 0
  then show ?case by simp
next
  case (Suc n)
  show ?case
    using Suc.IH [of "e + 1"] by simp
qed

lemma float_exp_search_above:
  "float_exp_search n e x < e + int n \<Longrightarrow> x < 2 powi (float_exp_search n e x + 1)"
proof (induction n arbitrary: e)
  case 0
  then show ?case by simp
next
  case (Suc n)
  show ?case
  proof (cases "x < 2 powi (e + 1)")
    case True
    then show ?thesis by simp
  next
    case False
    then show ?thesis
      using Suc.IH [of "e + 1"] Suc.prems by simp
  qed
qed

lemma float_exp_search_below:
  "e < float_exp_search n e x \<Longrightarrow> 2 powi (float_exp_search n e x) \<le> x"
proof (induction n arbitrary: e)
  case 0
  then show ?case by simp
next
  case (Suc n)
  show ?case
  proof (cases "x < 2 powi (e + 1)")
    case True
    then show ?thesis using Suc.prems by simp
  next
    case False
    show ?thesis
    proof (cases "e + 1 < float_exp_search n (e + 1) x")
      case True
      then show ?thesis
        using Suc.IH [of "e + 1"] False by simp
    next
      case f: False
      then have "float_exp_search n (e + 1) x = e + 1"
        using float_exp_search_range [of "e + 1" n x] by simp
      then show ?thesis
        using False by simp
    qed
  qed
qed

lemma float_exp_search_mono:
  "x \<le> y \<Longrightarrow> float_exp_search n e x \<le> float_exp_search n e y"
proof (induction n arbitrary: e)
  case 0
  then show ?case by simp
next
  case (Suc n)
  show ?case
    using Suc.IH [OF Suc.prems, of "e + 1"] Suc.prems
      float_exp_search_range [of "e + 1" n y]
    by auto
qed

lemma float_exponent_eq:
  assumes "2 powi e \<le> \<bar>x\<bar>" "\<bar>x\<bar> < 2 powi (e + 1)" "- 126 \<le> e" "e \<le> 127"
  shows "float_exponent x = e"
proof -
  let ?r = "float_exponent x"
  have rng: "- 126 \<le> ?r" "?r \<le> - 126 + 254"
    using float_exp_search_range [of "- 126" 254 "\<bar>x\<bar>"] by (simp_all add: float_exponent_def)
  have "\<not> ?r < e"
  proof
    assume lt: "?r < e"
    then have "\<bar>x\<bar> < 2 powi (?r + 1)"
      using float_exp_search_above [of 254 "- 126" "\<bar>x\<bar>"] assms(4)
      by (simp add: float_exponent_def)
    also have "\<dots> \<le> (2 :: real) powi e"
      using lt by (intro power_int_increasing) simp_all
    finally show False
      using assms(1) by simp
  qed
  moreover have "\<not> e < ?r"
  proof
    assume gt: "e < ?r"
    then have "2 powi ?r \<le> \<bar>x\<bar>"
      using float_exp_search_below [of "- 126" 254 "\<bar>x\<bar>"] assms(3)
      by (simp add: float_exponent_def)
    moreover have "(2 :: real) powi (e + 1) \<le> 2 powi ?r"
      using gt by (intro power_int_increasing) simp_all
    ultimately show False
      using assms(2) by simp
  qed
  ultimately show ?thesis
    by simp
qed

lemma round_to_float_mono:
  assumes "0 \<le> x" "x \<le> y"
  shows "round_to_float x \<le> round_to_float y"
proof -
  let ?ex = "float_exponent x" and ?ey = "float_exponent y"
  have ax: "\<bar>x\<bar> = x" and ay: "\<bar>y\<bar> = y"
    using assms by simp_all
  have le: "?ex \<le> ?ey"
    using float_exp_search_mono [of "\<bar>x\<bar>" "\<bar>y\<bar>" 254 "- 126"] assms
    by (simp add: float_exponent_def)
  have rng: "- 126 \<le> ?ex" "?ey \<le> - 126 + 254"
    using float_exp_search_range [of "- 126" 254 "\<bar>x\<bar>"]
      float_exp_search_range [of "- 126" 254 "\<bar>y\<bar>"]
    by (simp_all add: float_exponent_def)
  show ?thesis
  proof (cases "?ex = ?ey")
    case True
    have "x / 2 powi (?ey - 23) \<le> y / 2 powi (?ey - 23)"
      using assms(2) by (intro divide_right_mono) simp_all
    then have "round_half_even (x / 2 powi (?ey - 23)) \<le> round_half_even (y / 2 powi (?ey - 23))"
      by (rule round_half_even_mono)
    then show ?thesis
      by (simp add: round_to_float_def Let_def True mult_right_mono)
  next
    case False
    then have lt: "?ex < ?ey"
      using le by simp
    have xlt: "x < 2 powi (?ex + 1)"
      using float_exp_search_above [of 254 "- 126" "\<bar>x\<bar>"] lt rng ax
      by (simp add: float_exponent_def)
    have yge: "2 powi ?ey \<le> y"
      using float_exp_search_below [of "- 126" 254 "\<bar>y\<bar>"] lt rng ay
      by (simp add: float_exponent_def)
    have p: "(2 :: real) powi (?ex + 1) = 2 ^ 24 * 2 powi (?ex - 23)"
      "(2 :: real) powi ?ey = 2 ^ 23 * 2 powi (?ey - 23)"
      by (simp_all add: power_int_diff power_int_add)
    have "x / 2 powi (?ex - 23) \<le> of_int (2 ^ 24)"
      using xlt p(1) by (simp add: divide_le_eq)
    then have "round_half_even (x / 2 powi (?ex - 23)) \<le> 2 ^ 24"
      by (rule round_half_even_le_int)
    then have "real_of_int (round_half_even (x / 2 powi (?ex - 23))) \<le> 2 ^ 24"
      by (metis of_int_le_iff of_int_numeral of_int_power)
    then have "round_to_float x \<le> 2 ^ 24 * 2 powi (?ex - 23)"
      by (simp add: round_to_float_def Let_def mult_right_mono)
    then have a: "round_to_float x \<le> 2 powi (?ex + 1)"
      using p(1) by simp
    have "of_int (2 ^ 23) \<le> y / 2 powi (?ey - 23)"
      using yge p(2) by (simp add: le_divide_eq)
    then have "2 ^ 23 \<le> round_half_even (y / 2 powi (?ey - 23))"
      by (rule round_half_even_ge_int)
    then have "2 ^ 23 \<le> real_of_int (round_half_even (y / 2 powi (?ey - 23)))"
      by (metis of_int_le_iff of_int_numeral of_int_power)
    then have "2 ^ 23 * 2 powi (?ey - 23) \<le> round_to_float y"
      by (simp add: round_to_float_def Let_def mult_right_mono)
    then have b: "2 powi ?ey \<le> round_to_float y"
      using p(2) by simp
    have "(2 :: real) powi (?ex + 1) \<le> 2 powi ?ey"
      using lt by (intro power_int_increasing) simp_all
    then show ?thesis
      using a b by linarith
  qed
qed

lemma round_to_float_at:
  assumes "2 powi e \<le> \<bar>x\<bar>" "\<bar>x\<bar> < 2 powi (e + 1)" "- 126 \<le> e" "e \<le> 127"
  shows "round_to_float x = of_int (round_half_even (x / 2 powi (e - 23))) * 2 powi (e - 23)"
  using float_exponent_eq [OF assms] by (simp add: round_to_float_def Let_def)

lemma round_to_float_0: "round_to_float 0 = 0"
  by (simp add: round_to_float_def round_half_even_def)

lemma round_to_float_nonneg: "0 \<le> x \<Longrightarrow> 0 \<le> round_to_float x"
  using round_to_float_mono [of 0 x] by (simp add: round_to_float_0)

section \<open>The offset in samples\<close>

text \<open>
  The two roundings at the sample rates and offsets used below. 5 ms and 200 ms at
  1000 Hz are 5 and 200 samples: the quotients 0.005 and 0.2 are not representable
  and round up, and the products round back to the integers.
\<close>

lemma offset_seconds_5: "round_to_float (real_of_int 5 / 1000) = 10737418 / 2 ^ 31"
  by (subst round_to_float_at [where e = "- 8"]) (simp_all add: round_half_even_def Let_def)

lemma offset_seconds_9: "round_to_float (real_of_int 9 / 1000) = 9663676 / 2 ^ 30"
  by (subst round_to_float_at [where e = "- 7"]) (simp_all add: round_half_even_def Let_def)

lemma offset_seconds_200: "round_to_float (real_of_int 200 / 1000) = 13421773 / 2 ^ 26"
  by (subst round_to_float_at [where e = "- 3"]) (simp_all add: round_half_even_def Let_def)

lemma offset_samples_1000_5: "round_to_float (1000 * (10737418 / 2 ^ 31)) = 5"
  by (subst round_to_float_at [where e = 2]) (simp_all add: round_half_even_def Let_def)

lemma offset_samples_1000_200: "round_to_float (1000 * (13421773 / 2 ^ 26)) = 200"
  by (subst round_to_float_at [where e = 7]) (simp_all add: round_half_even_def Let_def)

lemma offset_samples_48000_9: "round_to_float (48000 * (9663676 / 2 ^ 30)) = 14155775 / 2 ^ 15"
  by (subst round_to_float_at [where e = 8]) (simp_all add: round_half_even_def Let_def)

lemma real_to_int_numerals:
  "real_to_int 5 = Inr 5" "real_to_int 9 = Inr 9" "real_to_int 200 = Inr 200"
  by (simp_all add: real_to_int_def trunc_def)

lemma LIMIT_BETWEEN_5_AND_200_numerals:
  "LIMIT_BETWEEN_5_AND_200 5 = 5" "LIMIT_BETWEEN_5_AND_200 9 = 9"
  "LIMIT_BETWEEN_5_AND_200 200 = 200"
  by (simp_all add: LIMIT_BETWEEN_5_AND_200_def)

lemma GetOffsetInSamples_1000_5: "GetOffsetInSamples 1000 5 = Inr 5"
  unfolding GetOffsetInSamples_def real_to_int_numerals sum.case Let_def
    LIMIT_BETWEEN_5_AND_200_numerals offset_seconds_5 offset_samples_1000_5
  by (simp add: real_to_int_def trunc_def)

lemma GetOffsetInSamples_1000_200: "GetOffsetInSamples 1000 200 = Inr 200"
  unfolding GetOffsetInSamples_def real_to_int_numerals sum.case Let_def
    LIMIT_BETWEEN_5_AND_200_numerals offset_seconds_200 offset_samples_1000_200
  by (simp add: real_to_int_def trunc_def)

text \<open>
  At 48000 Hz an offset of 9 ms is 431 samples, one less than the 432 of the exact
  product: 0.009 rounds down to single precision and so does the product.
\<close>

lemma GetOffsetInSamples_48000_9: "GetOffsetInSamples 48000 9 = Inr 431"
  unfolding GetOffsetInSamples_def real_to_int_numerals sum.case Let_def
    LIMIT_BETWEEN_5_AND_200_numerals offset_seconds_9 offset_samples_48000_9
  by (simp add: real_to_int_def trunc_def)

lemma GetOffsetInSamples_cases:
  assumes "GetOffsetInSamples sr ms = Inr n"
  obtains c :: int where "5 \<le> c" "c \<le> 200"
    "n = trunc (round_to_float (sr * round_to_float (real_of_int c / 1000)))"
proof -
  obtain t where t: "real_to_int ms = Inr t"
    and r: "real_to_int (round_to_float
              (sr * round_to_float (real_of_int (LIMIT_BETWEEN_5_AND_200 t) / 1000))) = Inr n"
    using assms by (auto simp: GetOffsetInSamples_def Let_def split: sum.splits)
  have "5 \<le> LIMIT_BETWEEN_5_AND_200 t" "LIMIT_BETWEEN_5_AND_200 t \<le> 200"
    by (simp_all add: LIMIT_BETWEEN_5_AND_200_def)
  moreover have "n = trunc (round_to_float
      (sr * round_to_float (real_of_int (LIMIT_BETWEEN_5_AND_200 t) / 1000)))"
    using r unfolding real_to_int_def by (simp split: if_splits)
  ultimately show ?thesis
    using that by blast
qed

lemma offset_seconds_lower:
  assumes "5 \<le> c"
  shows "10737418 / 2 ^ 31 \<le> round_to_float (real_of_int c / 1000)"
proof -
  have "real_of_int 5 / 1000 \<le> real_of_int c / 1000"
    using assms by simp
  then have "round_to_float (real_of_int 5 / 1000) \<le> round_to_float (real_of_int c / 1000)"
    by (intro round_to_float_mono) simp_all
  then show ?thesis
    unfolding offset_seconds_5 .
qed

lemma GetOffsetInSamples_lower:
  assumes "1000 \<le> sr" "GetOffsetInSamples sr ms = Inr n"
  shows "5 \<le> n"
proof -
  obtain c :: int where c: "5 \<le> c"
    and n: "n = trunc (round_to_float (sr * round_to_float (real_of_int c / 1000)))"
    using assms(2) by (rule GetOffsetInSamples_cases)
  let ?s = "round_to_float (real_of_int c / 1000)"
  have s: "10737418 / 2 ^ 31 \<le> ?s"
    using c by (rule offset_seconds_lower)
  have "1000 * (10737418 / 2 ^ 31) \<le> sr * ?s"
    using assms(1) s by (intro mult_mono) simp_all
  then have "round_to_float (1000 * (10737418 / 2 ^ 31)) \<le> round_to_float (sr * ?s)"
    by (intro round_to_float_mono) simp_all
  then have "5 \<le> round_to_float (sr * ?s)"
    unfolding offset_samples_1000_5 .
  then show ?thesis
    unfolding n trunc_def by (simp add: le_floor_iff)
qed

lemma GetOffsetInSamples_upper:
  assumes "0 \<le> sr" "GetOffsetInSamples sr ms = Inr n" "GetOffsetInSamples sr 200 = Inr m"
  shows "n \<le> m"
proof -
  obtain c :: int where c: "5 \<le> c" "c \<le> 200"
    and n: "n = trunc (round_to_float (sr * round_to_float (real_of_int c / 1000)))"
    using assms(2) by (rule GetOffsetInSamples_cases)
  let ?s = "round_to_float (real_of_int c / 1000)"
  let ?t = "round_to_float (real_of_int 200 / 1000)"
  have "real_to_int (round_to_float (sr * ?t)) = Inr m"
    using assms(3)
    unfolding GetOffsetInSamples_def real_to_int_numerals sum.case Let_def
      LIMIT_BETWEEN_5_AND_200_numerals .
  then have m: "m = trunc (round_to_float (sr * ?t))"
    unfolding real_to_int_def by (simp split: if_splits)
  have s0: "0 \<le> ?s"
    using offset_seconds_lower [OF c(1)] by simp
  have "real_of_int c / 1000 \<le> real_of_int 200 / 1000"
    using c(2) by simp
  then have "?s \<le> ?t"
    using c(1) by (intro round_to_float_mono) simp_all
  then have "sr * ?s \<le> sr * ?t"
    using assms(1) by (rule mult_left_mono)
  moreover have p0: "0 \<le> sr * ?s"
    using assms(1) s0 by simp
  ultimately have le: "round_to_float (sr * ?s) \<le> round_to_float (sr * ?t)"
    by (intro round_to_float_mono)
  have "0 \<le> round_to_float (sr * ?s)"
    using p0 by (rule round_to_float_nonneg)
  then show ?thesis
    unfolding n m trunc_def using le by (simp add: floor_mono)
qed

lemma blit_whole: "length src = n \<Longrightarrow> length dst = n \<Longrightarrow> blit src 0 dst 0 n = src"
  by (simp add: blit_def)

lemma run_Adt_valid:
  assumes sr: "1000 \<le> adt_sample_rate adt"
    and off: "GetOffsetInSamples (adt_sample_rate adt) (adt_offset adt) = Inr k"
    and k: "nat k \<le> unat total_samples" "nat k \<le> length (block_run_off adt)"
    and n: "1 < total_samples" "unat total_samples < 2 ^ 61"
    and len: "length (adt_Input_Left adt) = unat total_samples"
      "length (adt_Input_Right adt) = unat total_samples"
      "length (adt_Output_Left adt) = unat total_samples"
      "length (adt_Output_Right adt) = unat total_samples"
    and cap: "length (block_run_off adt) < 2 ^ 61"
  shows "run_Adt (Some adt) total_samples =
         Inr (Some (adt\<lparr>adt_Output_Left := adt_Input_Left adt,
                         adt_Output_Right :=
                           take (nat k) (block_run_off adt)
                           @ take (unat total_samples - nat k) (adt_Input_Right adt),
                         block_run_off :=
                           drop (unat total_samples - nat k) (adt_Input_Right adt)
                           @ drop (nat k) (block_run_off adt)\<rparr>))"
proof -
  let ?N = "unat total_samples"
  have k0: "0 \<le> k"
    using GetOffsetInSamples_lower [OF sr off] by simp
  have uk: "unat (word_of_nat (nat k) :: ulong) = nat k"
    using k(1) unsigned_less [of total_samples] by (intro le_unat_uoi [of _ total_samples]) simp
  have kle: "(word_of_nat (nat k) :: ulong) \<le> total_samples"
    using k(1) uk by (simp add: word_le_nat_alt)
  have usub: "unat (total_samples - word_of_nat (nat k)) = ?N - nat k"
    using kle uk by (simp add: unat_sub)
  have l1: "adt_copy_left (adt_Input_Left adt) (adt_Output_Left adt) total_samples 0 0 =
            Inr (adt_Input_Left adt)"
    using adt_copy_left_blit [of 0 total_samples "adt_Input_Left adt" 0 "adt_Output_Left adt"]
      len n by (simp add: blit_whole)
  let ?o2 = "blit (block_run_off adt) 0 (adt_Output_Right adt) 0 (nat k)"
  have l2: "adt_emit_run_off (block_run_off adt) (adt_Output_Right adt) k 0 0 =
            Inr (?o2, word_of_nat (nat k))"
    using adt_emit_run_off_blit [of 0 k "block_run_off adt" 0 "adt_Output_Right adt"]
      k0 k len n cap by simp
  have len2: "length ?o2 = ?N"
    using k len by (simp add: blit_def)
  let ?o3 = "blit (adt_Input_Right adt) 0 ?o2 (nat k) (?N - nat k)"
  have l3: "adt_copy_right (adt_Input_Right adt) ?o2 total_samples 0 (word_of_nat (nat k)) =
            Inr (?o3, total_samples - word_of_nat (nat k))"
    using adt_copy_right_blit [of "word_of_nat (nat k)" total_samples ?o2 0 "adt_Input_Right adt"]
      k len len2 n uk by simp
  have l4: "adt_save_run_off (adt_Input_Right adt) (block_run_off adt) total_samples
              (total_samples - word_of_nat (nat k)) 0 =
            Inr (blit (adt_Input_Right adt) (?N - nat k) (block_run_off adt) 0 (nat k))"
    using adt_save_run_off_blit [of "total_samples - word_of_nat (nat k)" total_samples
        "adt_Input_Right adt" 0 "block_run_off adt"] k len n cap usub by simp
  have o3: "?o3 = take (nat k) (block_run_off adt) @ take (?N - nat k) (adt_Input_Right adt)"
    using k len by (simp add: blit_def)
  have r4: "blit (adt_Input_Right adt) (?N - nat k) (block_run_off adt) 0 (nat k) =
            drop (?N - nat k) (adt_Input_Right adt) @ drop (nat k) (block_run_off adt)"
    using k len by (simp add: blit_def)
  have "\<not> total_samples \<le> 1"
    using n(1) by simp
  then show ?thesis
    using sr off l1 l2 l3 l4 by (simp add: run_Adt_def o3 r4)
qed

section \<open>The delay: two consecutive calls\<close>

lemma GetOffsetInSamples_int_range:
  assumes "GetOffsetInSamples sr ms = Inr n"
  shows "n < 2 ^ 31"
  using assms
  by (auto simp: GetOffsetInSamples_def real_to_int_def Let_def split: sum.splits if_splits)

lemma activate_Adt_allocated:
  fixes adt :: "('a::zero) Adt"
  assumes "1000 \<le> adt_sample_rate adt"
    and "GetOffsetInSamples (adt_sample_rate adt) 200 = Inr cap"
    and "length (block_run_off adt) = nat cap"
  shows "activate_Adt adt = Inr (adt\<lparr>block_run_off := replicate (nat cap) 0\<rparr>)"
proof -
  have "0 \<le> cap"
    using GetOffsetInSamples_lower [OF assms(1,2)] by simp
  then show ?thesis
    using assms(2,3) by (simp add: activate_Adt_def)
qed

text \<open>
  C2. An instance whose run-off buffer has the size \<^verbatim>\<open>instantiate_Adt\<close> allocates is
  activated and run twice with the same offset \<open>k\<close> (in samples) on right-channel
  inputs \<open>in1\<close> and \<open>in2\<close> of \<open>total_samples > k\<close> samples each. Both calls return; the
  first right-channel output is \<open>k\<close> zeros followed by the first
  \<open>total_samples - k\<close> samples of \<open>in1\<close>; the second is the last \<open>k\<close> samples of
  \<open>in1\<close> followed by the first \<open>total_samples - k\<close> samples of \<open>in2\<close>; after each
  call the first \<open>k\<close> cells of the run-off buffer are the last \<open>k\<close> samples of that
  call's input; the two outputs together are \<open>k\<close> zeros followed by the input
  stream.
\<close>

theorem adt_two_calls_delay:
  fixes adt :: "('a::zero) Adt"
  assumes sr: "1000 \<le> adt_sample_rate adt"
    and alloc: "GetOffsetInSamples (adt_sample_rate adt) 200 = Inr cap"
      "length (block_run_off adt) = nat cap"
    and off: "GetOffsetInSamples (adt_sample_rate adt) (adt_offset adt) = Inr k"
    and n: "nat k < unat total_samples" "unat total_samples < 2 ^ 61"
    and len: "length in1 = unat total_samples" "length in2 = unat total_samples"
      "length (adt_Input_Left adt) = unat total_samples"
      "length (adt_Output_Left adt) = unat total_samples"
      "length (adt_Output_Right adt) = unat total_samples"
  shows "\<exists>a0 a1 a2.
           activate_Adt adt = Inr a0 \<and>
           run_Adt (Some (a0\<lparr>adt_Input_Right := in1\<rparr>)) total_samples = Inr (Some a1) \<and>
           run_Adt (Some (a1\<lparr>adt_Input_Right := in2\<rparr>)) total_samples = Inr (Some a2) \<and>
           adt_Output_Right a1 = replicate (nat k) 0 @ take (unat total_samples - nat k) in1 \<and>
           take (nat k) (block_run_off a1) = drop (unat total_samples - nat k) in1 \<and>
           adt_Output_Right a2 =
             drop (unat total_samples - nat k) in1 @ take (unat total_samples - nat k) in2 \<and>
           take (nat k) (block_run_off a2) = drop (unat total_samples - nat k) in2 \<and>
           adt_Output_Right a1 @ adt_Output_Right a2 =
             replicate (nat k) 0 @ take (2 * unat total_samples - nat k) (in1 @ in2)"
proof -
  let ?N = "unat total_samples"
  let ?k = "nat k"
  have k5: "5 \<le> k"
    using GetOffsetInSamples_lower [OF sr off] .
  have kcap: "k \<le> cap"
    using GetOffsetInSamples_upper [OF _ off alloc(1)] sr by simp
  have cap: "nat cap < 2 ^ 61"
  proof -
    have "cap < 2 ^ 31"
      using alloc(1) by (rule GetOffsetInSamples_int_range)
    then have "nat cap < 2 ^ 31"
      by (simp add: nat_less_iff)
    also have "\<dots> < (2 :: nat) ^ 61"
      by simp
    finally show ?thesis .
  qed
  have one: "1 < total_samples"
    using n(1) k5 by (simp add: word_less_nat_alt)
  define a0 where "a0 = adt\<lparr>block_run_off := replicate (nat cap) 0\<rparr>"
  define a1 where "a1 = a0\<lparr>adt_Input_Right := in1, adt_Output_Left := adt_Input_Left adt,
      adt_Output_Right := take ?k (replicate (nat cap) 0) @ take (?N - ?k) in1,
      block_run_off := drop (?N - ?k) in1 @ drop ?k (replicate (nat cap) 0)\<rparr>"
  define a2 where "a2 = a1\<lparr>adt_Input_Right := in2, adt_Output_Left := adt_Input_Left adt,
      adt_Output_Right := take ?k (block_run_off a1) @ take (?N - ?k) in2,
      block_run_off := drop (?N - ?k) in2 @ drop ?k (block_run_off a1)\<rparr>"
  have act: "activate_Adt adt = Inr a0"
    unfolding a0_def using sr alloc by (rule activate_Adt_allocated)
  have r1: "run_Adt (Some (a0\<lparr>adt_Input_Right := in1\<rparr>)) total_samples = Inr (Some a1)"
    using run_Adt_valid [of "a0\<lparr>adt_Input_Right := in1\<rparr>" k total_samples]
      sr off n len kcap k5 cap one
    by (simp add: a0_def a1_def)
  have lro: "length (block_run_off a1) = nat cap"
    using n(1) len(1) kcap k5 by (simp add: a1_def)
  have r2: "run_Adt (Some (a1\<lparr>adt_Input_Right := in2\<rparr>)) total_samples = Inr (Some a2)"
    using run_Adt_valid [of "a1\<lparr>adt_Input_Right := in2\<rparr>" k total_samples]
      sr off n len kcap k5 cap one lro
    by (simp add: a0_def a1_def a2_def)
  have kmin: "min ?k (nat cap) = ?k"
    using kcap by simp
  have o1: "adt_Output_Right a1 = replicate ?k 0 @ take (?N - ?k) in1"
    by (simp add: a1_def kmin)
  have c1: "take ?k (block_run_off a1) = drop (?N - ?k) in1"
    using n(1) len(1) by (simp add: a1_def)
  have o2: "adt_Output_Right a2 = drop (?N - ?k) in1 @ take (?N - ?k) in2"
    using c1 by (simp add: a2_def)
  have c2: "take ?k (block_run_off a2) = drop (?N - ?k) in2"
    using n(1) len(2) by (simp add: a2_def)
  have "take (?N - ?k) in1 @ drop (?N - ?k) in1 @ take (?N - ?k) in2 =
        take (2 * ?N - ?k) (in1 @ in2)"
    using n(1) len(1,2) by simp
  then have cat: "adt_Output_Right a1 @ adt_Output_Right a2 =
        replicate ?k 0 @ take (2 * ?N - ?k) (in1 @ in2)"
    by (simp add: o1 o2)
  show ?thesis
    using act r1 r2 o1 c1 o2 c2 cat by blast
qed

theorem adt_two_calls_delay_witness:
  "\<exists>a0 a1 a2.
     activate_Adt \<lparr>block_run_off = replicate 200 (9 :: int), adt_offset = 5,
        adt_sample_rate = 1000, adt_Input_Left = [1, 1, 1, 1, 1, 1, 1], adt_Input_Right = [],
        adt_Output_Left = [8, 8, 8, 8, 8, 8, 8], adt_Output_Right = [8, 8, 8, 8, 8, 8, 8]\<rparr>
       = Inr a0 \<and>
     run_Adt (Some (a0\<lparr>adt_Input_Right := [10, 11, 12, 13, 14, 15, 16]\<rparr>)) 7 = Inr (Some a1) \<and>
     run_Adt (Some (a1\<lparr>adt_Input_Right := [20, 21, 22, 23, 24, 25, 26]\<rparr>)) 7 = Inr (Some a2) \<and>
     adt_Output_Right a1 = [0, 0, 0, 0, 0, 10, 11] \<and>
     take 5 (block_run_off a1) = [12, 13, 14, 15, 16] \<and>
     adt_Output_Right a2 = [12, 13, 14, 15, 16, 20, 21] \<and>
     take 5 (block_run_off a2) = [22, 23, 24, 25, 26] \<and>
     adt_Output_Right a1 @ adt_Output_Right a2 =
       [0, 0, 0, 0, 0, 10, 11, 12, 13, 14, 15, 16, 20, 21]"
proof -
  have g: "GetOffsetInSamples 1000 5 = Inr 5" "GetOffsetInSamples 1000 200 = Inr 200"
    by (fact GetOffsetInSamples_1000_5 GetOffsetInSamples_1000_200)+
  have r5: "replicate 5 (0 :: int) = [0, 0, 0, 0, 0]"
    by (simp add: eval_nat_numeral)
  show ?thesis
    using adt_two_calls_delay
      [of "\<lparr>block_run_off = replicate 200 (9 :: int), adt_offset = 5,
            adt_sample_rate = 1000, adt_Input_Left = [1, 1, 1, 1, 1, 1, 1], adt_Input_Right = [],
            adt_Output_Left = [8, 8, 8, 8, 8, 8, 8], adt_Output_Right = [8, 8, 8, 8, 8, 8, 8]\<rparr>"
          200 5 7 "[10, 11, 12, 13, 14, 15, 16]" "[20, 21, 22, 23, 24, 25, 26]"]
    by (simp add: g r5)
qed

text \<open>
  C5. Sample rate 1000 and a control value of 5 ms give an offset of 5 samples. On
  an instance that has just been activated, a call with 10 samples whose right input
  is 0, 1, ..., 9 writes 0, 0, 0, 0, 0, 0, 1, 2, 3, 4 to the right output and leaves
  5, 6, 7, 8, 9 in the first five cells of the run-off buffer (its other 195 cells
  keep the zeros of the activation).
\<close>

theorem adt_concrete_scenario:
  fixes adt :: "real Adt"
  assumes "adt_sample_rate adt = 1000" and "adt_offset adt = 5"
    and "length (block_run_off adt) = 200"
    and "adt_Input_Right adt = [0, 1, 2, 3, 4, 5, 6, 7, 8, 9]"
    and "length (adt_Input_Left adt) = 10" and "length (adt_Output_Left adt) = 10"
    and "length (adt_Output_Right adt) = 10"
  shows "GetOffsetInSamples (adt_sample_rate adt) (adt_offset adt) = Inr 5 \<and>
         (\<exists>a0 a1. activate_Adt adt = Inr a0 \<and> run_Adt (Some a0) 10 = Inr (Some a1) \<and>
            adt_Output_Right a1 = [0, 0, 0, 0, 0, 0, 1, 2, 3, 4] \<and>
            take 5 (block_run_off a1) = [5, 6, 7, 8, 9] \<and>
            block_run_off a1 = [5, 6, 7, 8, 9] @ replicate 195 0)"
proof -
  have g: "GetOffsetInSamples 1000 5 = Inr 5" "GetOffsetInSamples 1000 200 = Inr 200"
    by (fact GetOffsetInSamples_1000_5 GetOffsetInSamples_1000_200)+
  define a0 where "a0 = adt\<lparr>block_run_off := replicate 200 0\<rparr>"
  have act: "activate_Adt adt = Inr a0"
    using activate_Adt_allocated [of adt 200] assms g by (simp add: a0_def)
  have r5: "replicate 5 (0 :: real) = [0, 0, 0, 0, 0]"
    by (simp add: eval_nat_numeral)
  have run: "run_Adt (Some a0) 10 =
        Inr (Some (a0\<lparr>adt_Output_Left := adt_Input_Left a0,
               adt_Output_Right := [0, 0, 0, 0, 0, 0, 1, 2, 3, 4],
               block_run_off := [5, 6, 7, 8, 9] @ replicate 195 0\<rparr>))"
    using run_Adt_valid [of a0 5 10] assms g by (simp add: a0_def r5)
  show ?thesis
    using act run assms g by simp
qed

theorem adt_concrete_scenario_witness:
  "GetOffsetInSamples 1000 5 = Inr 5 \<and>
   (\<exists>a0 a1.
      activate_Adt \<lparr>block_run_off = replicate 200 (3 :: real), adt_offset = 5,
         adt_sample_rate = 1000, adt_Input_Left = [1, 1, 1, 1, 1, 1, 1, 1, 1, 1],
         adt_Input_Right = [0, 1, 2, 3, 4, 5, 6, 7, 8, 9],
         adt_Output_Left = [8, 8, 8, 8, 8, 8, 8, 8, 8, 8],
         adt_Output_Right = [8, 8, 8, 8, 8, 8, 8, 8, 8, 8]\<rparr> = Inr a0 \<and>
      run_Adt (Some a0) 10 = Inr (Some a1) \<and>
      adt_Output_Right a1 = [0, 0, 0, 0, 0, 0, 1, 2, 3, 4] \<and>
      take 5 (block_run_off a1) = [5, 6, 7, 8, 9] \<and>
      block_run_off a1 = [5, 6, 7, 8, 9] @ replicate 195 0)"
  using adt_concrete_scenario
    [of "\<lparr>block_run_off = replicate 200 (3 :: real), adt_offset = 5,
         adt_sample_rate = 1000, adt_Input_Left = [1, 1, 1, 1, 1, 1, 1, 1, 1, 1],
         adt_Input_Right = [0, 1, 2, 3, 4, 5, 6, 7, 8, 9],
         adt_Output_Left = [8, 8, 8, 8, 8, 8, 8, 8, 8, 8],
         adt_Output_Right = [8, 8, 8, 8, 8, 8, 8, 8, 8, 8]\<rparr>"]
  by simp

section \<open>Invalid calls\<close>

text \<open>
  C7. A call with \<open>total_samples \<le> 1\<close>, with a null instance, or with a sample rate
  below the floor of the variant (10 for the reversal, 1 for the splice, 1000 for the
  delay) returns without a fault and gives back the instance it was given: every
  buffer, and the run-off buffer of the delay, is what it was.
\<close>

theorem invalid_call_is_no_op:
  "(total_samples \<le> 1 \<or> rinst = None \<or> (\<exists>r. rinst = Some r \<and> rv_sample_rate r < 10)
      \<longrightarrow> run_Reverse rnd rinst total_samples = Some (Inr rinst)) \<and>
   (total_samples \<le> 1 \<or> kinst = None \<or> (\<exists>k. kinst = Some k \<and> kt_sample_rate k < 1)
      \<longrightarrow> run_Kite rnd kinst total_samples = Some (Inr kinst)) \<and>
   (total_samples \<le> 1 \<or> ainst = None \<or> (\<exists>a. ainst = Some a \<and> adt_sample_rate a < 1000)
      \<longrightarrow> run_Adt ainst total_samples = Inr ainst)"
  by (auto simp: run_Reverse_def run_Kite_def run_Adt_def word_less_1 split: option.splits)

theorem invalid_call_is_no_op_witness:
  "run_Reverse (\<lambda>k. 0) (Some \<lparr>rv_sample_rate = 9, rv_Input = [1, 2, 3 :: int],
       rv_Output = [7, 7, 7]\<rparr>) 3
     = Some (Inr (Some \<lparr>rv_sample_rate = 9, rv_Input = [1, 2, 3], rv_Output = [7, 7, 7]\<rparr>)) \<and>
   run_Kite (\<lambda>k. 0) (Some \<lparr>kt_sample_rate = 0, kt_Input_Left = [1, 2, 3 :: int],
       kt_Input_Right = [4, 5, 6], kt_Output_Left = [7, 7, 7], kt_Output_Right = [7, 7, 7]\<rparr>) 3
     = Some (Inr (Some \<lparr>kt_sample_rate = 0, kt_Input_Left = [1, 2, 3],
       kt_Input_Right = [4, 5, 6], kt_Output_Left = [7, 7, 7], kt_Output_Right = [7, 7, 7]\<rparr>)) \<and>
   run_Adt (Some \<lparr>block_run_off = [0, 0, 0, 0, 0 :: int], adt_offset = 5, adt_sample_rate = 999,
       adt_Input_Left = [1, 2, 3], adt_Input_Right = [4, 5, 6],
       adt_Output_Left = [7, 7, 7], adt_Output_Right = [7, 7, 7]\<rparr>) 3
     = Inr (Some \<lparr>block_run_off = [0, 0, 0, 0, 0], adt_offset = 5, adt_sample_rate = 999,
       adt_Input_Left = [1, 2, 3], adt_Input_Right = [4, 5, 6],
       adt_Output_Left = [7, 7, 7], adt_Output_Right = [7, 7, 7]\<rparr>) \<and>
   run_Adt (Some \<lparr>block_run_off = [0, 0, 0, 0, 0 :: int], adt_offset = 5, adt_sample_rate = 1000,
       adt_Input_Left = [1], adt_Input_Right = [4],
       adt_Output_Left = [7], adt_Output_Right = [7]\<rparr>) 1
     = Inr (Some \<lparr>block_run_off = [0, 0, 0, 0, 0], adt_offset = 5, adt_sample_rate = 1000,
       adt_Input_Left = [1], adt_Input_Right = [4],
       adt_Output_Left = [7], adt_Output_Right = [7]\<rparr>)"
proof -
  note a = invalid_call_is_no_op
    [of 3 "Some \<lparr>rv_sample_rate = 9, rv_Input = [1, 2, 3 :: int], rv_Output = [7, 7, 7]\<rparr>"
        "\<lambda>k. 0"
        "Some \<lparr>kt_sample_rate = 0, kt_Input_Left = [1, 2, 3 :: int],
           kt_Input_Right = [4, 5, 6], kt_Output_Left = [7, 7, 7], kt_Output_Right = [7, 7, 7]\<rparr>"
        "Some \<lparr>block_run_off = [0, 0, 0, 0, 0 :: int], adt_offset = 5, adt_sample_rate = 999,
           adt_Input_Left = [1, 2, 3], adt_Input_Right = [4, 5, 6],
           adt_Output_Left = [7, 7, 7], adt_Output_Right = [7, 7, 7]\<rparr>"]
  note b = invalid_call_is_no_op
    [of 1 "None :: int Reverse option" "\<lambda>k. 0" "None :: int Kite option"
        "Some \<lparr>block_run_off = [0, 0, 0, 0, 0 :: int], adt_offset = 5, adt_sample_rate = 1000,
           adt_Input_Left = [1], adt_Input_Right = [4],
           adt_Output_Left = [7], adt_Output_Right = [7]\<rparr>"]
  show ?thesis
    using a b by simp
qed


section \<open>The backward copy of \<^verbatim>\<open>run_Reverse\<close>\<close>

lemma unat_add_nowrap:
  "unat a + unat b < 2 ^ 64 \<Longrightarrow> unat (a + b :: ulong) = unat a + unat b"
  by (simp add: unat_word_ariths)

lemma blit_Cons:
  "d < length dst \<Longrightarrow> blit (x # xs) 0 dst d (Suc n) = blit xs 0 (dst[d := x]) (Suc d) n"
  using blit_step [of 0 "x # xs" d dst n] by (simp add: blit_def)

lemma length_blit:
  "d + n \<le> length dst \<Longrightarrow> s + n \<le> length src \<Longrightarrow> length (blit src s dst d n) = length dst"
  by (simp add: blit_def)

lemma not_sentinel: "unat (i::ulong) < 2 ^ 61 \<Longrightarrow> i \<noteq> 0xFFFFFFFFFFFFFFFF"
  by auto

lemma reverse_block_stops:
  "reverse_block inp out sp (sp - 1) oi = Inr (out, sp - 1, oi)"
proof (cases "sp = 0")
  case True
  then show ?thesis
    by (subst reverse_block.simps) simp
next
  case False
  then have "unat (sp - 1) < unat sp"
    by (rule measure_unat)
  then have "\<not> sp \<le> sp - 1"
    by (simp add: word_le_nat_alt)
  then show ?thesis
    by (subst reverse_block.simps) simp
qed

lemma reverse_block_segment_aux:
  assumes "unat in_index = unat sp + n" "unat in_index < length inp"
    "unat out_index + Suc n \<le> length out" "length inp < 2 ^ 61" "length out < 2 ^ 61"
  shows "reverse_block inp out sp in_index out_index =
         Inr (blit (rev (take (Suc n) (drop (unat sp) inp))) 0 out (unat out_index) (Suc n),
              sp - 1, out_index + of_nat (Suc n))"
  using assms
proof (induction n arbitrary: in_index out_index out)
  case 0
  then have eq: "in_index = sp"
    by (simp add: word_unat_eq_iff)
  have "unat sp < 2 ^ 61"
    using 0 eq by simp
  then have ne: "sp \<noteq> 0xFFFFFFFFFFFFFFFF"
    by (rule not_sentinel)
  have rng: "in_range out (unat out_index) \<and> in_range inp (unat sp)"
    using 0 eq by (simp add: in_range_def)
  have one: "take (Suc 0) (drop (unat sp) inp) = [inp ! unat sp]"
    using 0 eq by (simp add: take_Suc_conv_app_nth)
  have "blit [inp ! unat sp] 0 out (unat out_index) (Suc 0) = out[unat out_index := inp ! unat sp]"
    using 0 by (simp add: blit_def upd_conv_take_nth_drop)
  then show ?case
    unfolding eq using ne rng
    by (subst reverse_block.simps) (simp add: reverse_block_stops one)
next
  case (Suc n)
  let ?s = "unat sp" and ?e = "unat in_index" and ?o = "unat out_index"
  have ne0: "in_index \<noteq> 0"
    using Suc.prems(1) by (auto simp: unat_eq_0 dest: arg_cong [of _ _ unat])
  have dec: "unat (in_index - 1) = ?s + n"
    using Suc.prems(1) ne0 by (simp add: unat_dec)
  have "?e < 2 ^ 61"
    using Suc.prems by simp
  then have ne: "in_index \<noteq> 0xFFFFFFFFFFFFFFFF"
    by (rule not_sentinel)
  have ge: "sp \<le> in_index"
    using Suc.prems(1) by (simp add: word_le_nat_alt)
  have olt: "?o < length out"
    using Suc.prems by simp
  have uo: "unat (out_index + 1) = Suc ?o"
    using olt Suc.prems(5) by (intro unat_inc_nat [of _ "length out"]) simp_all
  have rng: "in_range out ?o \<and> in_range inp ?e"
    using Suc.prems olt by (simp add: in_range_def)
  let ?out = "out[?o := inp ! ?e]"
  have IH: "reverse_block inp ?out sp (in_index - 1) (out_index + 1) =
        Inr (blit (rev (take (Suc n) (drop ?s inp))) 0 ?out (Suc ?o) (Suc n),
             sp - 1, out_index + 1 + of_nat (Suc n))"
    using Suc.IH [of "in_index - 1" "out_index + 1" ?out] dec Suc.prems uo by simp
  have nth: "drop ?s inp ! Suc n = inp ! ?e"
    using Suc.prems by simp
  have "Suc n < length (drop ?s inp)"
    using Suc.prems by simp
  then have "rev (take (Suc (Suc n)) (drop ?s inp)) =
        inp ! ?e # rev (take (Suc n) (drop ?s inp))"
    using nth by (simp add: take_Suc_conv_app_nth [of "Suc n"])
  then have "blit (rev (take (Suc (Suc n)) (drop ?s inp))) 0 out ?o (Suc (Suc n)) =
        blit (rev (take (Suc n) (drop ?s inp))) 0 ?out (Suc ?o) (Suc n)"
    using olt by (simp add: blit_Cons)
  then show ?case
    using ge ne rng IH by (subst reverse_block.simps) (simp add: add.assoc)
qed

text \<open>
  A segment \<open>[start_position, in_index]\<close> inside the input is copied backwards to
  the output from \<open>out_index\<close> on: exactly its \<open>in_index - start_position + 1\<close>
  samples, and nothing else of the output changes. The loop leaves the input index
  at \<open>start_position - 1\<close>, which for \<open>start_position = 0\<close> is the wrapped value
  \<^verbatim>\<open>0xFFFFFFFFFFFFFFFF\<close>.
\<close>

lemma reverse_block_segment:
  assumes "start_position \<le> in_index" "unat in_index < length inp"
    "unat out_index + (unat in_index - unat start_position + 1) \<le> length out"
    "length inp < 2 ^ 61" "length out < 2 ^ 61"
  shows "reverse_block inp out start_position in_index out_index =
         Inr (blit (rev (take (unat in_index - unat start_position + 1)
                           (drop (unat start_position) inp)))
                0 out (unat out_index) (unat in_index - unat start_position + 1),
              start_position - 1, out_index + (in_index - start_position + 1))"
proof -
  let ?n = "unat in_index - unat start_position"
  have le: "unat start_position \<le> unat in_index"
    using assms(1) by (simp add: word_le_nat_alt)
  then have e: "unat in_index = unat start_position + ?n"
    by simp
  have "unat (in_index - start_position) = ?n"
    using assms(1) by (simp add: unat_sub)
  moreover have "of_nat (unat (in_index - start_position)) = in_index - start_position"
    by simp
  ultimately have "in_index - start_position = of_nat ?n"
    by simp
  then have w: "out_index + of_nat (Suc ?n) = out_index + (in_index - start_position + 1)"
    by simp
  show ?thesis
    using reverse_block_segment_aux [OF e assms(2) _ assms(4,5), of out_index] assms(3) w
    by simp
qed


section \<open>The segments of \<^verbatim>\<open>run_Reverse\<close>\<close>

lemma reverse_pick_cases:
  assumes min: "1 \<le> unat MIN_SAMPLES" "unat MIN_SAMPLES \<le> unat MAX_SAMPLES"
    and nowrap: "2 * unat MIN_SAMPLES < unat N \<longrightarrow> unat N + unat MAX_SAMPLES < 2 ^ 64"
    and n: "unat N < 2 ^ 61" and sp: "unat sp < unat N"
  obtains (tail) "reverse_pick rnd k MIN_SAMPLES MAX_SAMPLES N sp = Inr (0, N - 1, k)"
  | (draw) r where "reverse_pick rnd k MIN_SAMPLES MAX_SAMPLES N sp = Inr (r, r - 1, Suc k)"
      "unat sp + unat MIN_SAMPLES \<le> unat r" "unat r + unat MIN_SAMPLES \<le> unat N"
proof (cases "MIN_SAMPLES \<ge> N \<or> sp + MIN_SAMPLES \<ge> N - MIN_SAMPLES")
  case True
  then have "reverse_pick rnd k MIN_SAMPLES MAX_SAMPLES N sp = Inr (0, N - 1, k)"
    by (auto simp: reverse_pick_def)
  then show ?thesis by (rule tail)
next
  case False
  let ?n = "unat N" and ?m = "unat MIN_SAMPLES" and ?M = "unat MAX_SAMPLES" and ?s = "unat sp"
  have mn: "?m < ?n"
    using False by (simp add: word_le_nat_alt)
  then have sub: "unat (N - MIN_SAMPLES) = ?n - ?m"
    by (simp add: unat_sub word_le_nat_alt)
  have lo: "unat (sp + MIN_SAMPLES) = ?s + ?m"
    using sp mn n by (intro unat_add_nowrap) simp
  have gap: "?s + ?m < ?n - ?m"
    using False lo sub by (simp add: word_le_nat_alt)
  then have "2 * ?m < ?n"
    by simp
  then have big: "?n + ?M < 2 ^ 64"
    using nowrap by simp
  then have up: "unat (sp + MAX_SAMPLES) = ?s + ?M"
    using sp by (intro unat_add_nowrap) simp
  define upper where "upper = (if sp + MAX_SAMPLES > N - MIN_SAMPLES then N - MIN_SAMPLES else sp + MAX_SAMPLES)"
  have uu: "unat upper = (if ?s + ?M > ?n - ?m then ?n - ?m else ?s + ?M)"
    by (simp add: upper_def word_less_nat_alt up sub)
  have lu: "?s + ?m \<le> unat upper" and un: "unat upper \<le> ?n - ?m"
    using gap min(2) by (simp_all add: uu)
  have le: "sp + MIN_SAMPLES \<le> upper"
    using lu lo by (simp add: word_le_nat_alt)
  have d: "unat (upper - (sp + MIN_SAMPLES)) = unat upper - (?s + ?m)"
    using le lo by (simp add: unat_sub)
  define modulus where "modulus = upper - (sp + MIN_SAMPLES) + 1"
  have um: "unat modulus = Suc (unat upper - (?s + ?m))"
    unfolding modulus_def using d un n by (subst unat_add_nowrap) simp_all
  then have nz: "modulus \<noteq> 0"
    by (auto simp: unat_eq_0 [symmetric] simp del: unat_eq_0)
  define r where "r = sp + MIN_SAMPLES + rnd k mod modulus"
  have "unat (rnd k mod modulus) = unat (rnd k) mod unat modulus"
    by (simp add: unat_mod)
  also have "\<dots> < unat modulus"
    using um by simp
  finally have rm: "unat (rnd k mod modulus) \<le> unat upper - (?s + ?m)"
    using um by simp
  have "unat (sp + MIN_SAMPLES) + unat (rnd k mod modulus) < 2 ^ 64"
    using rm lo un lu n by simp
  then have ur: "unat r = ?s + ?m + unat (rnd k mod modulus)"
    unfolding r_def by (simp add: unat_add_nowrap lo)
  have pick: "reverse_pick rnd k MIN_SAMPLES MAX_SAMPLES N sp = Inr (r, r - 1, Suc k)"
    using False nz
    by (simp add: reverse_pick_def GetRandomNaturalNumber_def Let_def
                  upper_def [symmetric] modulus_def [symmetric] r_def)
  have "?s + ?m \<le> unat r" "unat r + ?m \<le> ?n"
    using ur rm lu un mn by simp_all
  with pick show ?thesis by (rule draw)
qed

lemma tiles_append: "tiles a plan b \<Longrightarrow> b \<le> e \<Longrightarrow> tiles a (plan @ [(b, e)]) (Suc e)"
  by (induction plan arbitrary: a) auto

lemma tiles_le: "tiles a plan b \<Longrightarrow> a \<le> b"
proof (induction plan arbitrary: a)
  case Nil
  then show ?case by simp
next
  case (Cons p plan)
  obtain s e where p: "p = (s, e)"
    by (cases p)
  from Cons.prems have "s = a" "s \<le> e" "tiles (Suc e) plan b"
    by (simp_all add: p)
  moreover from this have "Suc e \<le> b"
    by (intro Cons.IH)
  ultimately show ?case by simp
qed

lemma tiles_bounds:
  "tiles a plan b \<Longrightarrow> p \<in> set plan \<Longrightarrow> a \<le> fst p \<and> fst p \<le> snd p \<and> snd p < b"
proof (induction plan arbitrary: a)
  case Nil
  then show ?case by simp
next
  case (Cons q plan)
  obtain s e where q: "q = (s, e)"
    by (cases q)
  from Cons.prems(1) have t: "s = a" "s \<le> e" "tiles (Suc e) plan b"
    by (simp_all add: q)
  show ?case
  proof (cases "p = q")
    case True
    then show ?thesis
      using t tiles_le [OF t(3)] by (simp add: q)
  next
    case False
    then have "p \<in> set plan"
      using Cons.prems(2) by simp
    then have "Suc e \<le> fst p \<and> fst p \<le> snd p \<and> snd p < b"
      using t(3) by (intro Cons.IH)
    then show ?thesis
      using t by simp
  qed
qed

text \<open>Every index between \<open>a\<close> and \<open>b - 1\<close> lies in exactly one segment of a tiling.\<close>

lemma tiles_cover:
  "tiles a plan b \<Longrightarrow> a \<le> i \<Longrightarrow> i < b \<Longrightarrow> \<exists>!p. p \<in> set plan \<and> fst p \<le> i \<and> i \<le> snd p"
proof (induction plan arbitrary: a)
  case Nil
  then show ?case by simp
next
  case (Cons q plan)
  obtain s e where q: "q = (s, e)"
    by (cases q)
  from Cons.prems(1) have t: "s = a" "s \<le> e" "tiles (Suc e) plan b"
    by (simp_all add: q)
  show ?case
  proof (cases "i \<le> e")
    case True
    have "q \<in> set (q # plan) \<and> fst q \<le> i \<and> i \<le> snd q"
      using True t Cons.prems(2) by (simp add: q)
    moreover have "p = q" if "p \<in> set (q # plan) \<and> fst p \<le> i \<and> i \<le> snd p" for p
    proof (rule ccontr)
      assume "p \<noteq> q"
      then have "p \<in> set plan"
        using that by simp
      then have "Suc e \<le> fst p"
        using tiles_bounds [OF t(3)] by simp
      then show False
        using that True by simp
    qed
    ultimately show ?thesis
      by blast
  next
    case False
    then have "Suc e \<le> i"
      by simp
    with t(3) have "\<exists>!p. p \<in> set plan \<and> fst p \<le> i \<and> i \<le> snd p"
      using Cons.prems(3) by (rule Cons.IH)
    moreover have "\<not> (fst q \<le> i \<and> i \<le> snd q)"
      using False by (simp add: q)
    ultimately show ?thesis
      by auto
  qed
qed

lemma reversed_runs_append:
  "reversed_runs inp (plan @ [(s, e)]) =
   reversed_runs inp plan @ rev (take (Suc e - s) (drop s inp))"
  by (simp add: reversed_runs_def)

lemma mset_reversed_runs:
  "tiles a plan b \<Longrightarrow> b \<le> length inp \<Longrightarrow>
   mset (reversed_runs inp plan) = mset (take (b - a) (drop a inp))"
proof (induction plan arbitrary: a)
  case Nil
  then show ?case by (simp add: reversed_runs_def)
next
  case (Cons q plan)
  obtain s e where q: "q = (s, e)"
    by (cases q)
  from Cons.prems(1) have t: "s = a" "s \<le> e" "tiles (Suc e) plan b"
    by (simp_all add: q)
  have le: "Suc e \<le> b"
    using t(3) by (rule tiles_le)
  have IH: "mset (reversed_runs inp plan) = mset (take (b - Suc e) (drop (Suc e) inp))"
    using t(3) Cons.prems(2) by (rule Cons.IH)
  have "b - a = (Suc e - a) + (b - Suc e)"
    using t le by simp
  then have "take (b - a) (drop a inp) =
        take (Suc e - a) (drop a inp) @ take (b - Suc e) (drop (Suc e - a) (drop a inp))"
    by (simp only: take_add)
  also have "drop (Suc e - a) (drop a inp) = drop (Suc e) inp"
    using t by simp
  finally have "mset (take (b - a) (drop a inp)) =
        mset (take (Suc e - a) (drop a inp)) + mset (take (b - Suc e) (drop (Suc e) inp))"
    by simp
  moreover have "reversed_runs inp (q # plan) =
        rev (take (Suc e - a) (drop a inp)) @ reversed_runs inp plan"
    using t by (simp add: reversed_runs_def q)
  ultimately show ?case
    using IH by simp
qed

lemma reverse_loop_returns:
  assumes min: "1 \<le> unat MIN_SAMPLES" "unat MIN_SAMPLES \<le> unat MAX_SAMPLES"
    and nowrap: "2 * unat MIN_SAMPLES < unat N \<longrightarrow> unat N + unat MAX_SAMPLES < 2 ^ 64"
    and n: "unat N < 2 ^ 61" and len: "length inp = unat N" "length out = unat N"
    and inv: "out_index = N \<or> (out_index = sp \<and> out_index < N)"
    and pl: "tiles 0 (segment_indices plan) (unat out_index)"
      "take (unat out_index) out = reversed_runs inp (segment_indices plan)"
  shows "\<exists>out' plan'.
           reverse_loop rnd inp MIN_SAMPLES MAX_SAMPLES N out sp out_index k plan
             = Some (Inr (out', plan')) \<and>
           length out' = unat N \<and> tiles 0 (segment_indices plan') (unat N) \<and>
           out' = reversed_runs inp (segment_indices plan')"
  using len(2) inv pl
proof (induction d \<equiv> "unat N - unat out_index" arbitrary: out sp out_index k plan
       rule: less_induct)
  case less
  let ?n = "unat N" and ?s = "unat sp"
  show ?case
  proof (cases "out_index < N")
    case False
    then have "out_index = N"
      using less.prems(2) by auto
    then have "reverse_loop rnd inp MIN_SAMPLES MAX_SAMPLES N out sp out_index k plan
               = Some (Inr (out, plan))"
      by (subst reverse_loop.simps) simp
    moreover have "tiles 0 (segment_indices plan) ?n"
      "out = reversed_runs inp (segment_indices plan)"
      using less.prems(1,3,4) \<open>out_index = N\<close> by simp_all
    ultimately show ?thesis
      using less.prems(1) by blast
  next
    case True
    then have eq: "out_index = sp" and slt: "?s < ?n"
      using less.prems(2) by (auto simp: word_less_nat_alt)
    have linp: "length inp < 2 ^ 61" and lout: "length out < 2 ^ 61"
      using n len(1) less.prems(1) by simp_all
    let ?plan = "segment_indices plan"
    have tl: "tiles 0 ?plan ?s" and tk: "take ?s out = reversed_runs inp ?plan"
      using less.prems(3,4) eq by simp_all
    from min nowrap n slt show ?thesis
    proof (cases rule: reverse_pick_cases [where rnd = rnd and k = k])
      case tail
      have n0: "N \<noteq> 0"
        using slt by auto
      then have un1: "unat (N - 1) = ?n - 1"
        by (rule unat_dec)
      have le: "sp \<le> N - 1"
        using slt un1 by (simp add: word_le_nat_alt)
      have cnt: "unat (N - 1) - ?s + 1 = ?n - ?s"
        using slt un1 by simp
      define out' where "out' = blit (rev (take (?n - ?s) (drop ?s inp))) 0 out ?s (?n - ?s)"
      have "reverse_block inp out sp (N - 1) sp =
            Inr (blit (rev (take (unat (N - 1) - ?s + 1) (drop ?s inp))) 0 out ?s
                   (unat (N - 1) - ?s + 1),
                 sp - 1, sp + (N - 1 - sp + 1))"
        using le _ _ linp lout
      proof (rule reverse_block_segment)
        show "unat (N - 1) < length inp"
          using slt un1 len(1) by simp
        show "?s + (unat (N - 1) - ?s + 1) \<le> length out"
          using slt less.prems(1) by (simp only: cnt; simp)
      qed
      then have blk: "reverse_block inp out sp (N - 1) sp = Inr (out', sp - 1, N)"
        by (simp only: cnt out'_def; simp)
      have l': "length out' = ?n"
        using slt len(1) less.prems(1) by (simp add: out'_def length_blit)
      have "Suc (?n - 1) - ?s = ?n - ?s"
        using slt by simp
      then have "out' = reversed_runs inp (?plan @ [(?s, ?n - 1)])"
        using slt len(1) less.prems(1) tk
        by (simp add: out'_def blit_def reversed_runs_append)
      moreover have si: "segment_indices (plan @ [(sp, N - 1)]) = ?plan @ [(?s, ?n - 1)]"
        by (simp add: segment_indices_def un1)
      ultimately have o': "out' = reversed_runs inp (segment_indices (plan @ [(sp, N - 1)]))"
        by simp
      have "tiles 0 (?plan @ [(?s, ?n - 1)]) (Suc (?n - 1))"
        using tl slt by (intro tiles_append) simp_all
      then have t': "tiles 0 (segment_indices (plan @ [(sp, N - 1)])) ?n"
        using slt si by simp
      have "reverse_loop rnd inp MIN_SAMPLES MAX_SAMPLES N out' 0 N k (plan @ [(sp, N - 1)])
            = Some (Inr (out', plan @ [(sp, N - 1)]))"
        by (subst reverse_loop.simps) simp
      then have "reverse_loop rnd inp MIN_SAMPLES MAX_SAMPLES N out sp out_index k plan
            = Some (Inr (out', plan @ [(sp, N - 1)]))"
        using True tail blk eq by (subst reverse_loop.simps) simp
      then show ?thesis
        using l' t' o' by blast
    next
      case (draw r)
      let ?r = "unat r"
      have r0: "r \<noteq> 0"
        using draw(2) min(1) by auto
      then have ur1: "unat (r - 1) = ?r - 1"
        by (rule unat_dec)
      have le: "sp \<le> r - 1"
        using draw(2) min(1) ur1 by (simp add: word_le_nat_alt)
      have cnt: "unat (r - 1) - ?s + 1 = ?r - ?s"
        using draw(2) min(1) ur1 by simp
      have rn: "?r < ?n"
        using draw(3) min(1) by simp
      have sr: "?s < ?r"
        using draw(2) min(1) by simp
      define out' where "out' = blit (rev (take (?r - ?s) (drop ?s inp))) 0 out ?s (?r - ?s)"
      have "reverse_block inp out sp (r - 1) sp =
            Inr (blit (rev (take (unat (r - 1) - ?s + 1) (drop ?s inp))) 0 out ?s
                   (unat (r - 1) - ?s + 1),
                 sp - 1, sp + (r - 1 - sp + 1))"
        using le _ _ linp lout
      proof (rule reverse_block_segment)
        show "unat (r - 1) < length inp"
          using rn ur1 len(1) by simp
        show "?s + (unat (r - 1) - ?s + 1) \<le> length out"
          using rn draw(2) less.prems(1) by (simp only: cnt; simp)
      qed
      then have blk: "reverse_block inp out sp (r - 1) sp = Inr (out', sp - 1, r)"
        by (simp only: cnt out'_def; simp)
      have l': "length out' = ?n"
        using rn draw(2) len(1) less.prems(1) by (simp add: out'_def length_blit)
      have "Suc (?r - 1) - ?s = ?r - ?s"
        using sr by simp
      moreover have "take ?r out' = take ?s out @ rev (take (?r - ?s) (drop ?s inp))"
        using sr rn len(1) less.prems(1) by (simp add: out'_def blit_def)
      ultimately have "take ?r out' = reversed_runs inp (?plan @ [(?s, ?r - 1)])"
        using tk by (simp add: reversed_runs_append)
      moreover have si: "segment_indices (plan @ [(sp, r - 1)]) = ?plan @ [(?s, ?r - 1)]"
        by (simp add: segment_indices_def ur1)
      ultimately have o': "take ?r out' = reversed_runs inp (segment_indices (plan @ [(sp, r - 1)]))"
        by simp
      have "tiles 0 (?plan @ [(?s, ?r - 1)]) (Suc (?r - 1))"
        using tl sr by (intro tiles_append) simp_all
      then have t': "tiles 0 (segment_indices (plan @ [(sp, r - 1)])) ?r"
        using sr si by simp
      have dec: "?n - ?r < ?n - unat out_index"
        using sr rn eq by simp
      have "r < N"
        using rn by (simp add: word_less_nat_alt)
      then have "\<exists>out'' plan'.
            reverse_loop rnd inp MIN_SAMPLES MAX_SAMPLES N out' r r (Suc k) (plan @ [(sp, r - 1)])
              = Some (Inr (out'', plan')) \<and>
            length out'' = ?n \<and> tiles 0 (segment_indices plan') ?n \<and>
            out'' = reversed_runs inp (segment_indices plan')"
        using less.hyps [OF dec l' _ t' o'] by simp
      moreover have "reverse_loop rnd inp MIN_SAMPLES MAX_SAMPLES N out sp out_index k plan =
            reverse_loop rnd inp MIN_SAMPLES MAX_SAMPLES N out' r r (Suc k) (plan @ [(sp, r - 1)])"
        using True draw(1) blk eq by (subst reverse_loop.simps) simp
      ultimately show ?thesis
        by simp
    qed
  qed
qed

lemma unat_word_of_int: "0 \<le> z \<Longrightarrow> z < 2 ^ 64 \<Longrightarrow> unat (word_of_int z :: ulong) = nat z"
  by (simp add: unat_eq_nat_uint uint_word_of_int)

lemma reverse_bounds:
  assumes "10 \<le> sr" "1.5 * sr < 2 ^ 64"
  obtains mn mx where "real_to_ulong (0.2 * sr) = Inr mn" "real_to_ulong (1.5 * sr) = Inr mx"
    "2 \<le> unat mn" "unat mn \<le> unat mx" "2 * unat mx < 15 * (unat mn + 1)"
proof -
  let ?a = "\<lfloor>0.2 * sr\<rfloor>" and ?b = "\<lfloor>1.5 * sr\<rfloor>"
  have ta: "trunc (0.2 * sr) = ?a" and tb: "trunc (1.5 * sr) = ?b"
    using assms(1) by (simp_all add: trunc_def)
  have a2: "2 \<le> ?a"
    using assms(1) by (simp add: le_floor_iff)
  have ab: "?a \<le> ?b"
    using assms(1) by (intro floor_mono) simp
  have b64: "?b < 2 ^ 64"
    using assms(2) by (simp add: floor_less_iff)
  have "1.5 * sr = 7.5 * (0.2 * sr)"
    by simp
  also have "\<dots> < 7.5 * (real_of_int ?a + 1)"
    by (intro mult_strict_left_mono) linarith+
  finally have "2 * real_of_int ?b < 15 * (real_of_int ?a + 1)"
    using of_int_floor_le [of "1.5 * sr"] by linarith
  then have "real_of_int (2 * ?b) < real_of_int (15 * (?a + 1))"
    by simp
  then have lim: "2 * ?b < 15 * (?a + 1)"
    by (simp only: of_int_less_iff)
  define mn :: ulong where "mn = word_of_int ?a"
  define mx :: ulong where "mx = word_of_int ?b"
  have umn: "unat mn = nat ?a" and umx: "unat mx = nat ?b"
    unfolding mn_def mx_def using a2 ab b64 by (simp_all add: unat_word_of_int)
  have "real_to_ulong (0.2 * sr) = Inr mn" "real_to_ulong (1.5 * sr) = Inr mx"
    unfolding real_to_ulong_def ta tb mn_def mx_def using a2 ab b64 by simp_all
  moreover have "2 \<le> unat mn" "unat mn \<le> unat mx" "2 * unat mx < 15 * (unat mn + 1)"
    using a2 ab lim by (simp_all add: umn umx) linarith+
  ultimately show ?thesis
    by (rule that)
qed

lemma reverse_loop_covers:
  assumes "10 \<le> rv_sample_rate reverse" and "1.5 * rv_sample_rate reverse < 2 ^ 64"
    and "length (rv_Input reverse) = unat N" and "length (rv_Output reverse) = unat N"
    and "unat N < 2 ^ 61" and "1 < N"
    and b: "real_to_ulong (0.2 * rv_sample_rate reverse) = Inr mn"
      "real_to_ulong (1.5 * rv_sample_rate reverse) = Inr mx"
  shows "\<exists>out' plan.
           reverse_loop rnd (rv_Input reverse) mn mx N (rv_Output reverse) 0 0 0 []
             = Some (Inr (out', plan)) \<and>
           length out' = unat N \<and> mset out' = mset (rv_Input reverse) \<and>
           tiles 0 (segment_indices plan) (unat N) \<and>
           out' = reversed_runs (rv_Input reverse) (segment_indices plan)"
proof -
  obtain mn' mx' where b': "real_to_ulong (0.2 * rv_sample_rate reverse) = Inr mn'"
      "real_to_ulong (1.5 * rv_sample_rate reverse) = Inr mx'"
      "2 \<le> unat mn'" "unat mn' \<le> unat mx'" "2 * unat mx' < 15 * (unat mn' + 1)"
    using assms(1,2) by (rule reverse_bounds)
  have e: "mn' = mn" "mx' = mx"
    using b b' by simp_all
  have nowrap: "2 * unat mn < unat N \<longrightarrow> unat N + unat mx < 2 ^ 64"
    using b'(5) assms(5) by (simp add: e)
  have "\<exists>out' plan'.
          reverse_loop rnd (rv_Input reverse) mn mx N (rv_Output reverse) 0 0 0 []
            = Some (Inr (out', plan')) \<and>
          length out' = unat N \<and> tiles 0 (segment_indices plan') (unat N) \<and>
          out' = reversed_runs (rv_Input reverse) (segment_indices plan')"
    using _ _ nowrap assms(5,3,4)
  proof (rule reverse_loop_returns)
    show "1 \<le> unat mn" "unat mn \<le> unat mx"
      using b'(3,4) by (simp_all add: e)
    show "0 = N \<or> (0 = (0 :: ulong) \<and> 0 < N)"
      using assms(6) by (simp add: word_less_nat_alt)
    show "tiles 0 (segment_indices []) (unat (0 :: ulong))"
      by (simp add: segment_indices_def)
    show "take (unat (0 :: ulong)) (rv_Output reverse)
          = reversed_runs (rv_Input reverse) (segment_indices [])"
      by (simp add: reversed_runs_def segment_indices_def)
  qed
  then obtain out' plan where o: "reverse_loop rnd (rv_Input reverse) mn mx N
        (rv_Output reverse) 0 0 0 [] = Some (Inr (out', plan))" "length out' = unat N"
      "tiles 0 (segment_indices plan) (unat N)"
      "out' = reversed_runs (rv_Input reverse) (segment_indices plan)"
    by blast
  have "mset out' = mset (take (unat N - 0) (drop 0 (rv_Input reverse)))"
    unfolding o(4) using o(3) assms(3) by (intro mset_reversed_runs) simp_all
  then have "mset out' = mset (rv_Input reverse)"
    using assms(3) by simp
  then show ?thesis
    using o by blast
qed

text \<open>
  C1, as amended. For a valid call of \<^verbatim>\<open>run_Reverse\<close> and every sequence of random
  draws, the segments the loop chooses are non-empty, each starts where the one
  before ended, and together they are exactly the indices \<open>0\<close> to
  \<open>total_sample_count - 1\<close>: every index lies in exactly one segment and no segment
  leaves the buffer. The output of the run is the input with each of these segments
  written backwards.
\<close>

theorem run_Reverse_segments_cover:
  assumes "1 < total_sample_count"
    and "10 \<le> rv_sample_rate reverse" and "1.5 * rv_sample_rate reverse < 2 ^ 64"
    and "length (rv_Input reverse) = unat total_sample_count"
    and "length (rv_Output reverse) = unat total_sample_count"
    and "unat total_sample_count < 2 ^ 61"
  shows "\<exists>mn mx out plan.
           real_to_ulong (0.2 * rv_sample_rate reverse) = Inr mn \<and>
           real_to_ulong (1.5 * rv_sample_rate reverse) = Inr mx \<and>
           reverse_loop rnd (rv_Input reverse) mn mx total_sample_count
               (rv_Output reverse) 0 0 0 [] = Some (Inr (out, plan)) \<and>
           run_Reverse rnd (Some reverse) total_sample_count
             = Some (Inr (Some (reverse\<lparr>rv_Output := out\<rparr>))) \<and>
           tiles 0 (segment_indices plan) (unat total_sample_count) \<and>
           (\<forall>i < unat total_sample_count.
              \<exists>!p. p \<in> set (segment_indices plan) \<and> fst p \<le> i \<and> i \<le> snd p) \<and>
           (\<forall>p \<in> set (segment_indices plan). fst p \<le> snd p \<and> snd p < unat total_sample_count) \<and>
           out = reversed_runs (rv_Input reverse) (segment_indices plan)"
proof -
  obtain mn mx where b: "real_to_ulong (0.2 * rv_sample_rate reverse) = Inr mn"
      "real_to_ulong (1.5 * rv_sample_rate reverse) = Inr mx"
      "2 \<le> unat mn" "unat mn \<le> unat mx" "2 * unat mx < 15 * (unat mn + 1)"
    using assms(2,3) by (rule reverse_bounds)
  obtain out plan where o: "reverse_loop rnd (rv_Input reverse) mn mx total_sample_count
        (rv_Output reverse) 0 0 0 [] = Some (Inr (out, plan))"
      "tiles 0 (segment_indices plan) (unat total_sample_count)"
      "out = reversed_runs (rv_Input reverse) (segment_indices plan)"
    using reverse_loop_covers [OF assms(2-6) assms(1) b(1,2), of rnd]
    by blast
  have "\<not> total_sample_count \<le> 1"
    using assms(1) by simp
  then have run: "run_Reverse rnd (Some reverse) total_sample_count
             = Some (Inr (Some (reverse\<lparr>rv_Output := out\<rparr>)))"
    using assms(2) b(1,2) o(1) by (simp add: run_Reverse_def)
  have once: "\<forall>i < unat total_sample_count.
        \<exists>!p. p \<in> set (segment_indices plan) \<and> fst p \<le> i \<and> i \<le> snd p"
    using tiles_cover [OF o(2)] by simp
  have inside: "\<forall>p \<in> set (segment_indices plan).
        fst p \<le> snd p \<and> snd p < unat total_sample_count"
    using tiles_bounds [OF o(2)] by simp
  show ?thesis
    using b(1,2) o run once inside by blast
qed

theorem run_Reverse_segments_cover_witness:
  "(1 :: ulong) < 7 \<and>
   (\<exists>mn mx out plan.
      real_to_ulong (0.2 * 10) = Inr mn \<and> real_to_ulong (1.5 * 10) = Inr mx \<and>
      reverse_loop (\<lambda>k. 0) [1, 2, 3, 4, 5, 6, 7 :: real] mn mx 7 [0, 0, 0, 0, 0, 0, 0] 0 0 0 []
        = Some (Inr (out, plan)) \<and>
      run_Reverse (\<lambda>k. 0)
        (Some \<lparr>rv_sample_rate = 10, rv_Input = [1, 2, 3, 4, 5, 6, 7 :: real],
               rv_Output = [0, 0, 0, 0, 0, 0, 0]\<rparr>) 7
        = Some (Inr (Some \<lparr>rv_sample_rate = 10, rv_Input = [1, 2, 3, 4, 5, 6, 7],
                            rv_Output = out\<rparr>)) \<and>
      tiles 0 (segment_indices plan) 7 \<and>
      (\<forall>i < 7. \<exists>!p. p \<in> set (segment_indices plan) \<and> fst p \<le> i \<and> i \<le> snd p) \<and>
      (\<forall>p \<in> set (segment_indices plan). fst p \<le> snd p \<and> snd p < 7) \<and>
      out = reversed_runs [1, 2, 3, 4, 5, 6, 7] (segment_indices plan)) \<and>
   reverse_loop (\<lambda>k. 0) [1, 2, 3, 4, 5, 6, 7 :: real] 2 15 7 [0, 0, 0, 0, 0, 0, 0] 0 0 0 []
     = Some (Inr ([2, 1, 4, 3, 7, 6, 5], [(0, 1), (2, 3), (4, 6)]))"
proof -
  have lt: "(1 :: ulong) < 7"
    by (simp add: word_less_nat_alt)
  have c: "\<exists>mn mx out plan.
      real_to_ulong (0.2 * 10) = Inr mn \<and> real_to_ulong (1.5 * 10) = Inr mx \<and>
      reverse_loop (\<lambda>k. 0) [1, 2, 3, 4, 5, 6, 7 :: real] mn mx 7 [0, 0, 0, 0, 0, 0, 0] 0 0 0 []
        = Some (Inr (out, plan)) \<and>
      run_Reverse (\<lambda>k. 0)
        (Some \<lparr>rv_sample_rate = 10, rv_Input = [1, 2, 3, 4, 5, 6, 7 :: real],
               rv_Output = [0, 0, 0, 0, 0, 0, 0]\<rparr>) 7
        = Some (Inr (Some \<lparr>rv_sample_rate = 10, rv_Input = [1, 2, 3, 4, 5, 6, 7],
                            rv_Output = out\<rparr>)) \<and>
      tiles 0 (segment_indices plan) 7 \<and>
      (\<forall>i < 7. \<exists>!p. p \<in> set (segment_indices plan) \<and> fst p \<le> i \<and> i \<le> snd p) \<and>
      (\<forall>p \<in> set (segment_indices plan). fst p \<le> snd p \<and> snd p < 7) \<and>
      out = reversed_runs [1, 2, 3, 4, 5, 6, 7] (segment_indices plan)"
    using run_Reverse_segments_cover
      [of 7 "\<lparr>rv_sample_rate = 10, rv_Input = [1, 2, 3, 4, 5, 6, 7 :: real],
              rv_Output = [0, 0, 0, 0, 0, 0, 0]\<rparr>" "\<lambda>k. 0", OF lt]
    by simp
  have e: "reverse_loop (\<lambda>k. 0) [1, 2, 3, 4, 5, 6, 7 :: real] 2 15 7 [0, 0, 0, 0, 0, 0, 0] 0 0 0 []
     = Some (Inr ([2, 1, 4, 3, 7, 6, 5], [(0, 1), (2, 3), (4, 6)]))"
    by (simp add: reverse_loop.simps reverse_pick_def reverse_block.simps in_range_def
                  GetRandomNaturalNumber_def word_le_nat_alt word_less_nat_alt)
  show ?thesis
    using lt c e by blast
qed

text \<open>
  C9. For a valid call of \<^verbatim>\<open>run_Reverse\<close> (more than one sample, a sample rate of at
  least 10 whose product with 1.5 an \<^verbatim>\<open>unsigned long\<close> can hold, input and output
  buffers of \<open>total_sample_count\<close> samples) and for every sequence of random draws,
  the run returns without a fault, and its output holds every sample of the input
  exactly once. The backward copy of any segment of the input returns after copying
  exactly the samples of the segment; for a segment that starts at 0 it leaves the
  input index at the wrapped value \<^verbatim>\<open>0xFFFFFFFFFFFFFFFF\<close>.
\<close>

theorem run_Reverse_terminates:
  assumes "1 < total_sample_count"
    and "10 \<le> rv_sample_rate reverse" and "1.5 * rv_sample_rate reverse < 2 ^ 64"
    and "length (rv_Input reverse) = unat total_sample_count"
    and "length (rv_Output reverse) = unat total_sample_count"
    and "unat total_sample_count < 2 ^ 61"
  shows "(\<exists>out. run_Reverse rnd (Some reverse) total_sample_count
                  = Some (Inr (Some (reverse\<lparr>rv_Output := out\<rparr>))) \<and>
               length out = unat total_sample_count \<and> mset out = mset (rv_Input reverse)) \<and>
         (\<forall>out start_position in_index out_index.
            start_position \<le> in_index \<and> in_index < total_sample_count \<and>
            length out = unat total_sample_count \<and>
            unat out_index + (unat in_index - unat start_position + 1) \<le> unat total_sample_count
            \<longrightarrow> reverse_block (rv_Input reverse) out start_position in_index out_index =
                  Inr (blit (rev (take (unat in_index - unat start_position + 1)
                                    (drop (unat start_position) (rv_Input reverse))))
                         0 out (unat out_index) (unat in_index - unat start_position + 1),
                       start_position - 1,
                       out_index + (in_index - start_position + 1))) \<and>
         (\<forall>out in_index.
            in_index < total_sample_count \<and> length out = unat total_sample_count
            \<longrightarrow> reverse_block (rv_Input reverse) out 0 in_index 0 =
                  Inr (blit (rev (take (unat in_index + 1) (rv_Input reverse)))
                         0 out 0 (unat in_index + 1),
                       0xFFFFFFFFFFFFFFFF, in_index + 1))"
proof (intro conjI allI impI)
  let ?N = "unat total_sample_count"
  obtain mn mx where b: "real_to_ulong (0.2 * rv_sample_rate reverse) = Inr mn"
      "real_to_ulong (1.5 * rv_sample_rate reverse) = Inr mx"
      "2 \<le> unat mn" "unat mn \<le> unat mx" "2 * unat mx < 15 * (unat mn + 1)"
    using assms(2,3) by (rule reverse_bounds)
  have nowrap: "2 * unat mn < ?N \<longrightarrow> ?N + unat mx < 2 ^ 64"
    using b(5) assms(6) by simp
  obtain out' plan where o: "reverse_loop rnd (rv_Input reverse) mn mx total_sample_count
        (rv_Output reverse) 0 0 0 [] = Some (Inr (out', plan))"
      "length out' = ?N" "mset out' = mset (rv_Input reverse)"
    using reverse_loop_covers [OF assms(2-6) assms(1) b(1,2), of rnd]
    by blast
  have "\<not> total_sample_count \<le> 1"
    using assms(1) by simp
  then have "run_Reverse rnd (Some reverse) total_sample_count
             = Some (Inr (Some (reverse\<lparr>rv_Output := out'\<rparr>)))"
    using assms(2) b(1,2) o(1) by (simp add: run_Reverse_def)
  then show "\<exists>out. run_Reverse rnd (Some reverse) total_sample_count
                  = Some (Inr (Some (reverse\<lparr>rv_Output := out\<rparr>))) \<and>
               length out = ?N \<and> mset out = mset (rv_Input reverse)"
    using o(2,3) by blast
next
  fix out :: "'a list" and start_position in_index out_index :: ulong
  assume a: "start_position \<le> in_index \<and> in_index < total_sample_count \<and>
            length out = unat total_sample_count \<and>
            unat out_index + (unat in_index - unat start_position + 1) \<le> unat total_sample_count"
  show "reverse_block (rv_Input reverse) out start_position in_index out_index =
        Inr (blit (rev (take (unat in_index - unat start_position + 1)
                          (drop (unat start_position) (rv_Input reverse))))
               0 out (unat out_index) (unat in_index - unat start_position + 1),
             start_position - 1, out_index + (in_index - start_position + 1))"
    using a assms(4,6) by (intro reverse_block_segment) (simp_all add: word_less_nat_alt)
next
  fix out :: "'a list" and in_index :: ulong
  assume a: "in_index < total_sample_count \<and> length out = unat total_sample_count"
  have "reverse_block (rv_Input reverse) out 0 in_index 0 =
        Inr (blit (rev (take (unat in_index - unat (0 :: ulong) + 1)
                          (drop (unat (0 :: ulong)) (rv_Input reverse))))
               0 out (unat (0 :: ulong)) (unat in_index - unat (0 :: ulong) + 1),
             0 - 1, 0 + (in_index - 0 + 1))"
    using a assms(4,6) by (intro reverse_block_segment) (simp_all add: word_less_nat_alt)
  then show "reverse_block (rv_Input reverse) out 0 in_index 0 =
        Inr (blit (rev (take (unat in_index + 1) (rv_Input reverse)))
               0 out 0 (unat in_index + 1),
             0xFFFFFFFFFFFFFFFF, in_index + 1)"
    by simp
qed

theorem run_Reverse_terminates_witness:
  "(1 :: ulong) < 7 \<and>
   (\<exists>out. run_Reverse (\<lambda>k. 0)
             (Some \<lparr>rv_sample_rate = 10, rv_Input = [1, 2, 3, 4, 5, 6, 7 :: real],
                    rv_Output = [0, 0, 0, 0, 0, 0, 0]\<rparr>) 7
           = Some (Inr (Some \<lparr>rv_sample_rate = 10, rv_Input = [1, 2, 3, 4, 5, 6, 7],
                               rv_Output = out\<rparr>)) \<and>
         length out = 7 \<and> mset out = mset [1, 2, 3, 4, 5, 6, 7 :: real]) \<and>
   reverse_block [1, 2, 3, 4, 5, 6, 7 :: real] [0, 0, 0, 0, 0, 0, 0] 0 1 0 =
     Inr ([2, 1, 0, 0, 0, 0, 0], 0xFFFFFFFFFFFFFFFF, 2)"
proof -
  have lt: "(1 :: ulong) < 7"
    by (simp add: word_less_nat_alt)
  have lt2: "(1 :: ulong) < 7 \<and> length [0, 0, 0, 0, 0, 0, 0 :: real] = unat (7 :: ulong)"
    by (simp add: word_less_nat_alt)
  note t = run_Reverse_terminates
    [of 7 "\<lparr>rv_sample_rate = 10, rv_Input = [1, 2, 3, 4, 5, 6, 7 :: real],
            rv_Output = [0, 0, 0, 0, 0, 0, 0]\<rparr>" "\<lambda>k. 0", OF lt]
  have c: "(\<exists>out. run_Reverse (\<lambda>k. 0)
             (Some \<lparr>rv_sample_rate = 10, rv_Input = [1, 2, 3, 4, 5, 6, 7 :: real],
                    rv_Output = [0, 0, 0, 0, 0, 0, 0]\<rparr>) 7
           = Some (Inr (Some \<lparr>rv_sample_rate = 10, rv_Input = [1, 2, 3, 4, 5, 6, 7],
                               rv_Output = out\<rparr>)) \<and>
         length out = 7 \<and> mset out = mset [1, 2, 3, 4, 5, 6, 7 :: real])"
    using t by simp
  have "reverse_block [1, 2, 3, 4, 5, 6, 7 :: real] [0, 0, 0, 0, 0, 0, 0] 0 1 0 =
     Inr (blit (rev (take (unat (1 :: ulong) + 1) [1, 2, 3, 4, 5, 6, 7])) 0 [0, 0, 0, 0, 0, 0, 0]
            0 (unat (1 :: ulong) + 1),
          0xFFFFFFFFFFFFFFFF, 1 + 1)"
    using t lt2 by simp
  then show ?thesis
    using lt c by (simp add: blit_def)
qed

text \<open>
  C6. With sample rate 10 the minimum run is 2 samples, and a buffer of 4 samples
  is within twice that of its end from the start: whatever the random draws and
  whatever the output buffer held, the run copies the whole buffer backwards.
\<close>

theorem run_Reverse_short_buffer:
  "run_Reverse rnd
     (Some \<lparr>rv_sample_rate = 10, rv_Input = [0, 1, 2, 3 :: real], rv_Output = [a, b, c, d]\<rparr>) 4
   = Some (Inr (Some \<lparr>rv_sample_rate = 10, rv_Input = [0, 1, 2, 3],
                        rv_Output = [3, 2, 1, 0]\<rparr>))"
  by (simp add: run_Reverse_def real_to_ulong_def trunc_def reverse_loop.simps reverse_pick_def
                reverse_block.simps in_range_def word_le_nat_alt word_less_nat_alt)


section \<open>\<^verbatim>\<open>run_Kite\<close> at concrete inputs\<close>

lemmas kite_unfold = run_Kite_def real_to_ulong_def trunc_def kite_loop.simps kite_body_def
  kite_pick_def kite_reverse_def kite_emit_def kite_compact_def CopySubBlock_def
  CopySubBlock_loop.simps ApplyReverse.simps GetRandomNaturalNumber_def in_range_def
  word_le_nat_alt word_less_nat_alt Let_def

text \<open>
  C1, as stated, fails for \<^verbatim>\<open>run_Kite\<close>. The start and end positions of its segments
  are positions in the part of the input buffer that has not been emitted yet, and
  that part is compacted after every segment. At sample rate 4 and 10 samples the
  draws below give a run without fault whose segments are \<open>[2, 5]\<close>, \<open>[3, 5]\<close>,
  \<open>[1, 2]\<close> and \<open>[0, 0]\<close>: they overlap and are no tiling of the indices 0 to 9,
  although every input sample reaches the output exactly once.
\<close>

theorem kite_segments_overlap:
  "kite_loop (\<lambda>k. [1, 2, 1, 2, 1, 0, 1, 1] ! k) 1 9 10
     \<lparr>kt_sample_rate = 4,
      kt_Input_Left = [0, 1, 2, 3, 4, 5, 6, 7, 8, 9 :: real],
      kt_Input_Right = [0, -1, -2, -3, -4, -5, -6, -7, -8, -9],
      kt_Output_Left = [0, 0, 0, 0, 0, 0, 0, 0, 0, 0],
      kt_Output_Right = [0, 0, 0, 0, 0, 0, 0, 0, 0, 0]\<rparr> 0 10 0 []
   = Some (Inr (\<lparr>kt_sample_rate = 4,
                  kt_Input_Left = [0, 1, 6, 7, 8, 9, 6, 7, 8, 9],
                  kt_Input_Right = [0, -1, -6, -7, -8, -9, -6, -7, -8, -9],
                  kt_Output_Left = [2, 3, 4, 5, 7, 8, 9, 1, 6, 0],
                  kt_Output_Right = [-2, -3, -4, -5, -7, -8, -9, -1, -6, 0]\<rparr>,
                [(2, 5), (3, 5), (1, 2), (0, 0)])) \<and>
   run_Kite (\<lambda>k. [1, 2, 1, 2, 1, 0, 1, 1] ! k)
     (Some \<lparr>kt_sample_rate = 4,
            kt_Input_Left = [0, 1, 2, 3, 4, 5, 6, 7, 8, 9 :: real],
            kt_Input_Right = [0, -1, -2, -3, -4, -5, -6, -7, -8, -9],
            kt_Output_Left = [0, 0, 0, 0, 0, 0, 0, 0, 0, 0],
            kt_Output_Right = [0, 0, 0, 0, 0, 0, 0, 0, 0, 0]\<rparr>) 10
   = Some (Inr (Some \<lparr>kt_sample_rate = 4,
                  kt_Input_Left = [0, 1, 6, 7, 8, 9, 6, 7, 8, 9],
                  kt_Input_Right = [0, -1, -6, -7, -8, -9, -6, -7, -8, -9],
                  kt_Output_Left = [2, 3, 4, 5, 7, 8, 9, 1, 6, 0],
                  kt_Output_Right = [-2, -3, -4, -5, -7, -8, -9, -1, -6, 0]\<rparr>)) \<and>
   \<not> tiles 0 (segment_indices [(2, 5), (3, 5), (1, 2), (0, 0)]) 10"
  by (simp add: kite_unfold segment_indices_def)

text \<open>
  The same call with other draws leaves the buffer: with the start position 3 and
  the end position 10 the run reads \<^verbatim>\<open>Input_Left[10]\<close> of a buffer of 10 samples.
\<close>

lemma kite_segment_leaves_buffer:
  "run_Kite (\<lambda>k. if k = 0 then 2 else if k = 1 then 6 else 1)
     (Some \<lparr>kt_sample_rate = 4,
            kt_Input_Left = [0, 1, 2, 3, 4, 5, 6, 7, 8, 9 :: real],
            kt_Input_Right = [0, -1, -2, -3, -4, -5, -6, -7, -8, -9],
            kt_Output_Left = [0, 0, 0, 0, 0, 0, 0, 0, 0, 0],
            kt_Output_Right = [0, 0, 0, 0, 0, 0, 0, 0, 0, 0]\<rparr>) 10
   = Some (Inl OutOfBounds)"
  by (simp add: kite_unfold)

text \<open>
  C3. The claim asks that a valid call writes every cell of every output buffer. At
  sample rate 44100 (\<^verbatim>\<open>MIN_BLOCK_START\<close> = 11025) and 4 samples the whole buffer is one
  segment that starts at 0, the output index is 0 as well, and \<^verbatim>\<open>CopySubBlock\<close>
  returns at its first test (\<^verbatim>\<open>dest_start == src_start\<close>): for every sequence of draws
  the run returns with both output buffers holding what the caller supplied.
\<close>

theorem kite_outputs_not_written:
  "\<exists>il ir. run_Kite rnd
     (Some \<lparr>kt_sample_rate = 44100, kt_Input_Left = [a, b, c, d], kt_Input_Right = [e, f, g, h],
            kt_Output_Left = [w, x, y, z], kt_Output_Right = [s, t, u, v]\<rparr>) 4
   = Some (Inr (Some \<lparr>kt_sample_rate = 44100, kt_Input_Left = il, kt_Input_Right = ir,
                        kt_Output_Left = [w, x, y, z], kt_Output_Right = [s, t, u, v]\<rparr>))"
  by (cases "rnd 0 mod 3 = 0") (simp_all add: kite_unfold)

text \<open>
  The delay does not write its right output as claimed either when the offset is
  longer than the block: at sample rate 1000 with the offset of 5 samples and a call
  of 3 samples, the second loop of \<^verbatim>\<open>run_Adt\<close> writes \<^verbatim>\<open>output[3]\<close> of a buffer of 3.
\<close>

lemma adt_offset_longer_than_block:
  "run_Adt (Some \<lparr>block_run_off = replicate 200 0, adt_offset = 5, adt_sample_rate = 1000,
       adt_Input_Left = [a, b, c], adt_Input_Right = [d, e, f],
       adt_Output_Left = [u, v, w], adt_Output_Right = [x, y, z]\<rparr>) 3
   = Inl OutOfBounds"
  by (simp add: run_Adt_def GetOffsetInSamples_1000_5 adt_copy_left.simps
                adt_emit_run_off.simps in_range_def word_le_nat_alt word_less_nat_alt)

text \<open>
  C4. The claim asks that with more than \<^verbatim>\<open>MAX_BLOCK_END\<close> samples remaining the end
  position drawn never exceeds \<open>samples_remaining - 1\<close>. At sample rate 4
  (\<^verbatim>\<open>MIN_BLOCK_START\<close> = 1, \<^verbatim>\<open>MAX_BLOCK_END\<close> = 1 + 2 * 4) and 10 samples remaining, a
  first draw of 2 gives the start position 3, the upper bound of the second draw is
  \<open>samples_remaining\<close> itself, and a second draw of 6 gives the end position 10. At
  sample rate 44100 and 100000 samples remaining, draws of 8975 and 68975 give the
  start position 20000 and the end position 100000.
\<close>

theorem kite_end_draw_reaches_remaining:
  "real_to_ulong (0.25 * real (unat (4 :: ulong))) = Inr 1 \<and>
   kite_pick (\<lambda>k. if k = 0 then 2 else 6) 0 1 (1 + 2 * 4) 10 = Inr (3, 10, 2) \<and>
   real_to_ulong (0.25 * real (unat (44100 :: ulong))) = Inr 11025 \<and>
   kite_pick (\<lambda>k. if k = 0 then 8975 else 68975) 0 11025 (11025 + 2 * 44100) 100000
     = Inr (20000, 100000, 2)"
  by (simp add: real_to_ulong_def trunc_def kite_pick_def GetRandomNaturalNumber_def
                word_le_nat_alt word_less_nat_alt Let_def)

text \<open>
  C10. The claim asks that no call of \<^verbatim>\<open>GetRandomNaturalNumber\<close> has a zero modulus.
  At sample rate 8 (\<^verbatim>\<open>MIN_BLOCK_START\<close> = 2, \<^verbatim>\<open>MAX_BLOCK_END\<close> = 18) and 19 samples, a
  first draw of 16 gives the start position 18; the second call has lower bound 20
  and upper bound 19, its modulus \<open>19 - 20 + 1\<close> is 0 and the run ends in the fault
  \<open>DivisionByZero\<close>, whatever the buffers hold. The same happens at sample rate 44100
  and 100000 samples when the first draw is 77951 (start position 88976, bounds
  100001 and 100000).
\<close>

theorem kite_division_by_zero:
  "run_Kite (\<lambda>k. 16)
     (Some \<lparr>kt_sample_rate = 8, kt_Input_Left = il, kt_Input_Right = ir,
            kt_Output_Left = ol, kt_Output_Right = or'\<rparr>) 19
   = Some (Inl DivisionByZero) \<and>
   run_Kite (\<lambda>k. 77951)
     (Some \<lparr>kt_sample_rate = 44100, kt_Input_Left = il, kt_Input_Right = ir,
            kt_Output_Left = ol, kt_Output_Right = or'\<rparr>) 100000
   = Some (Inl DivisionByZero)"
  by (simp add: kite_unfold)

end
